theory Spec2Isabelle
  imports Main "HOL-Library.Word"
begin

unbundle bit_operations_syntax

section \<open>The URI parser of \<open>Uri.cpp\<close>\<close>

text \<open>
  The development embeds \<open>Uri::ParseFromString\<close> and its private helpers as they stand
  in the latest revision of \<open>Uri.cpp\<close> (the file \<open>src/unnamed/part_000\<close>, the one the unit
  tests of \<open>UriTests.cpp\<close> exercise: it stores the userinfo and validates the scheme).
  A \<open>std::string\<close> is a list of bytes (\<open>string\<close>), a \<open>size_t\<close> index is a \<open>nat\<close>,
  \<open>std::string::npos\<close> is \<open>None\<close>, the private \<open>Impl\<close> structure is a record that every
  mutating method takes and returns, and a C++ exception is the left summand of the result.
\<close>

subsection \<open>Operations of \<open>std::string\<close>\<close>

text \<open>\<open>s.substr(pos)\<close> and \<open>s.substr(pos, n)\<close> for \<open>pos \<le> s.size()\<close>; the one call
  site where \<open>pos\<close> can exceed the size (the percent-decoding loop) checks it itself.\<close>

definition substr_from :: "string \<Rightarrow> nat \<Rightarrow> string" where
  "substr_from s pos = drop pos s"

definition substr :: "string \<Rightarrow> nat \<Rightarrow> nat \<Rightarrow> string" where
  "substr s pos n = take n (drop pos s)"

text \<open>\<open>s.find(pat)\<close>: the least index at which \<open>pat\<close> occurs in \<open>s\<close>.\<close>

fun find_sub :: "string \<Rightarrow> string \<Rightarrow> nat option" where
  "find_sub pat [] = (if pat = [] then Some 0 else None)"
| "find_sub pat (c # cs) =
     (if take (length pat) (c # cs) = pat then Some 0
      else map_option Suc (find_sub pat cs))"

text \<open>\<open>s.find(pat, pos)\<close>: the least index from \<open>pos\<close> on.\<close>

definition str_find :: "string \<Rightarrow> string \<Rightarrow> nat \<Rightarrow> nat option" where
  "str_find s pat pos =
     (if length s < pos then None
      else map_option (\<lambda>i. i + pos) (find_sub pat (drop pos s)))"

text \<open>\<open>s.find_first_of(chars, pos)\<close>: the least index from \<open>pos\<close> on of a character
  that occurs in \<open>chars\<close>.\<close>

fun first_of :: "string \<Rightarrow> string \<Rightarrow> nat option" where
  "first_of chars [] = None"
| "first_of chars (c # cs) =
     (if c \<in> set chars then Some 0 else map_option Suc (first_of chars cs))"

definition find_first_of :: "string \<Rightarrow> string \<Rightarrow> nat \<Rightarrow> nat option" where
  "find_first_of s chars pos =
     (if length s < pos then None
      else map_option (\<lambda>i. i + pos) (first_of chars (drop pos s)))"

subsection \<open>Character classes\<close>

text \<open>Bytes are compared by their codes. The port loop's test \<open>c < '0' || c > '9'\<close>
  rejects every byte from 128 on whether \<open>char\<close> is signed or not, as the test on the
  unsigned code does.\<close>

definition code :: "char \<Rightarrow> nat" where
  "code c = of_char c"

definition is_digit :: "char \<Rightarrow> bool" where
  "is_digit c = (48 \<le> code c \<and> code c \<le> 57)"

definition is_alpha :: "char \<Rightarrow> bool" where
  "is_alpha c = ((65 \<le> code c \<and> code c \<le> 90) \<or> (97 \<le> code c \<and> code c \<le> 122))"

definition is_hex :: "char \<Rightarrow> bool" where
  "is_hex c = (is_digit c \<or> (65 \<le> code c \<and> code c \<le> 70) \<or> (97 \<le> code c \<and> code c \<le> 102))"

text \<open>The class \<open>[A-Za-z0-9\+\-\.]\<close> of the scheme expression.\<close>

definition scheme_class :: "char \<Rightarrow> bool" where
  "scheme_class c = (is_alpha c \<or> is_digit c \<or> c \<in> set ''+-.'')"

text \<open>The class \<open>[0-9A-Za-z\-\._~\!\$\&\'\(\)\*\+\,\;\:\=]\<close> of the userinfo
  expression; \<open>CHR 0x27\<close> is the apostrophe.\<close>

definition userinfo_class :: "char \<Rightarrow> bool" where
  "userinfo_class c =
     (is_digit c \<or> is_alpha c \<or> c \<in> set ''-._~!$&()*+,;:='' \<or> c = CHR 0x27)"

subsection \<open>The two regular expressions\<close>

text \<open>\<open>std::regex_match(schemeString, "^[A-Za-z][A-Za-z0-9\\+\\-\\.]*$")\<close>: the whole
  string is one letter followed by characters of the class.\<close>

fun scheme_regex :: "string \<Rightarrow> bool" where
  "scheme_regex [] = False"
| "scheme_regex (c # cs) = (is_alpha c \<and> list_all scheme_class cs)"

text \<open>\<open>std::regex_match(userInfo, "^(?:(?=%)%[0-9A-Fa-f]{2}|[...])*$")\<close>: the whole string
  is a sequence of items, each a percent sign with two hexadecimal digits or one character
  of the class. The class has no percent sign, so the first character decides the
  alternative and the match needs no backtracking.\<close>

fun userinfo_regex :: "string \<Rightarrow> bool" where
  "userinfo_regex [] = True"
| "userinfo_regex (c # cs) =
     (if c = CHR ''%'' then
        (case cs of
           h1 # h2 # r \<Rightarrow> is_hex h1 \<and> is_hex h2 \<and> userinfo_regex r
         | _ \<Rightarrow> False)
      else userinfo_class c \<and> userinfo_regex cs)"

subsection \<open>\<open>std::stoi(str, NULL, 16)\<close>\<close>

datatype exn = invalid_argument | out_of_range

definition is_space :: "char \<Rightarrow> bool" where
  "is_space c = (code c = 32 \<or> (9 \<le> code c \<and> code c \<le> 13))"

definition hex_digit_value :: "char \<Rightarrow> int" where
  "hex_digit_value c =
     (if is_digit c then int (code c) - 48
      else if 97 \<le> code c then int (code c) - 87
      else int (code c) - 55)"

definition hex_value :: "string \<Rightarrow> int" where
  "hex_value ds = foldl (\<lambda>a c. 16 * a + hex_digit_value c) 0 ds"

text \<open>As \<open>strtol\<close> with base 16 reads its argument: white space is skipped, one sign is
  taken, a \<open>0x\<close> or \<open>0X\<close> that a hexadecimal digit follows is skipped, and the longest run
  of hexadecimal digits is the value. \<open>std::stoi\<close> throws \<open>std::invalid_argument\<close> when
  no digit was read. The decoding loop passes at most two characters, so the value is
  within \<open>int\<close> and \<open>std::out_of_range\<close> cannot come from here.\<close>

definition stoi16 :: "string \<Rightarrow> exn + int" where
  "stoi16 str =
     (let s1 = dropWhile is_space str;
          neg = (case s1 of c # _ \<Rightarrow> c = CHR ''-'' | [] \<Rightarrow> False);
          s2 = (case s1 of c # r \<Rightarrow> if c = CHR ''-'' \<or> c = CHR ''+'' then r else s1 | [] \<Rightarrow> s1);
          s3 = (case s2 of
                  z # x # h # r \<Rightarrow>
                    if z = CHR ''0'' \<and> (x = CHR ''x'' \<or> x = CHR ''X'') \<and> is_hex h
                    then h # r else s2
                | _ \<Rightarrow> s2);
          ds = takeWhile is_hex s3
      in if ds = [] then Inl invalid_argument
         else Inr (if neg then - hex_value ds else hex_value ds))"

subsection \<open>The private state\<close>

record Impl =
  scheme :: string
  userInfo :: string
  host :: string
  hasPort :: bool
  port :: "16 word"
  path :: "string list"
  query :: string
  fragment :: string

text \<open>The state of a freshly constructed \<open>Uri\<close>.\<close>

definition Impl_new :: Impl where
  "Impl_new = \<lparr>scheme = [], userInfo = [], host = [], hasPort = False, port = 0,
               path = [], query = [], fragment = []\<rparr>"

subsection \<open>\<open>Uri::parseScheme\<close>\<close>

text \<open>The result is \<open>None\<close> when the method returns \<open>false\<close>, and otherwise the scheme and
  the index \<open>nextIdx\<close> of the first character after it.\<close>

definition parseScheme :: "string \<Rightarrow> (string \<times> nat) option" where
  "parseScheme uri =
     (case str_find uri '':'' 0 of
        None \<Rightarrow> Some ([], 0)
      | Some schemeEnd \<Rightarrow>
          if (case str_find uri ''/'' 0 of
                None \<Rightarrow> False
              | Some dotSegment \<Rightarrow> dotSegment < schemeEnd)
          then Some ([], 0)
          else
            (let schemeString = substr uri 0 schemeEnd
             in if \<not> scheme_regex schemeString then None
                else Some (schemeString, schemeEnd + 1)))"

subsection \<open>\<open>Uri::parseAuthority\<close>\<close>

text \<open>The result is the authority text and \<open>nextIdx\<close>. In \<open>authorityEnd - 2\<close> the
  minuend is at least \<open>doubleForwardSlash + 2\<close>, so the \<open>size_t\<close> difference does not
  wrap and is the difference of naturals.\<close>

definition parseAuthority :: "string \<Rightarrow> string \<times> nat" where
  "parseAuthority uri =
     (case str_find uri ''//'' 0 of
        None \<Rightarrow> ([], 0)
      | Some doubleForwardSlash \<Rightarrow>
          if (case str_find uri ''/'' 0 of
                None \<Rightarrow> False
              | Some dotSegment \<Rightarrow> dotSegment < doubleForwardSlash)
          then ([], 0)
          else
            (let authorityEnd =
                   (case find_first_of uri ''/?#'' (doubleForwardSlash + 2) of
                      None \<Rightarrow> length uri
                    | Some e \<Rightarrow> e)
             in (substr uri (doubleForwardSlash + 2) (authorityEnd - 2), authorityEnd)))"

subsection \<open>\<open>Uri::parseAuthorityComponents\<close>\<close>

text \<open>The loop that extracts the percent-encoded characters, on the local string
  \<open>userInfo\<close> (here \<open>ui\<close>). \<open>userInfo.substr(pctDelim + 1, 2)\<close>
  cannot throw (\<open>pctDelim\<close> is below the size); \<open>userInfo.substr(pctDelim + 3)\<close> throws
  \<open>std::out_of_range\<close> when fewer than two characters follow the percent sign. The cast
  \<open>(char)\<close> keeps the low eight bits.\<close>

function pct_loop :: "string \<Rightarrow> exn + string" where
  "pct_loop ui =
     (case str_find ui ''%'' 0 of
        None \<Rightarrow> Inr ui
      | Some pctDelim \<Rightarrow>
          (case stoi16 (substr ui (pctDelim + 1) 2) of
             Inl e \<Rightarrow> Inl e
           | Inr v \<Rightarrow>
               if length ui < pctDelim + 3 then Inl out_of_range
               else pct_loop
                      (substr ui 0 pctDelim @ [char_of v] @ substr_from ui (pctDelim + 3))))"
  by pat_completeness auto
termination
  by (relation "measure length") (auto simp: substr_def substr_from_def)

text \<open>The loop over the port text, on the 32-bit accumulator \<open>port32bits\<close>. The mask
  \<open>~((1 << 16) - 1)\<close> is computed on \<open>int\<close> and converted to 32 bits; the digit goes
  through \<open>uint16_t\<close>. \<open>None\<close> is the \<open>return false\<close> inside the loop.\<close>

fun port_loop :: "32 word \<Rightarrow> string \<Rightarrow> 32 word option" where
  "port_loop port32bits [] = Some port32bits"
| "port_loop port32bits (c # cs) =
     (if code c < code CHR ''0'' \<or> code c > code CHR ''9'' then None
      else
        (let p1 = port32bits * 10;
             p2 = p1 + ucast (word_of_int (int (code c) - int (code CHR ''0'')) :: 16 word)
         in if p2 AND word_of_int (NOT (push_bit 16 1 - 1)) \<noteq> 0 then None
            else port_loop p2 cs))"

text \<open>Lines 253 to 273: the userinfo. \<open>Inr None\<close> is \<open>return false\<close>; otherwise the state
  and the local \<open>nextIdx\<close>.\<close>

definition parseUserInfo :: "Impl \<Rightarrow> string \<Rightarrow> exn + (Impl \<times> nat) option" where
  "parseUserInfo st authority =
     (case str_find authority ''@'' 0 of
        None \<Rightarrow> Inr (Some (st, 0))
      | Some userinfoDelim \<Rightarrow>
          (let userInfo0 = substr authority 0 userinfoDelim
           in if \<not> userinfo_regex userInfo0 then Inr None
              else
                (case pct_loop userInfo0 of
                   Inl e \<Rightarrow> Inl e
                 | Inr decoded \<Rightarrow>
                     Inr (Some (st\<lparr>userInfo := decoded\<rparr>, userinfoDelim + 1)))))"

text \<open>Lines 275 to 297: the port and the host.\<close>

definition parsePort :: "Impl \<Rightarrow> string \<Rightarrow> nat \<Rightarrow> bool \<times> Impl" where
  "parsePort st authority nextIdx =
     (case str_find authority '':'' nextIdx of
        Some portDelim \<Rightarrow>
          (case port_loop 0 (substr_from authority (portDelim + 1)) of
             None \<Rightarrow> (False, st)
           | Some port32bits \<Rightarrow>
               (True, st\<lparr>port := ucast port32bits, hasPort := True,
                         host := substr authority nextIdx (portDelim - nextIdx)\<rparr>))
      | None \<Rightarrow> (True, st\<lparr>host := substr_from authority nextIdx\<rparr>))"

definition parseAuthorityComponents :: "Impl \<Rightarrow> string \<Rightarrow> exn + (bool \<times> Impl)" where
  "parseAuthorityComponents st0 authority =
     (let st = st0\<lparr>userInfo := [], host := [], port := 0, hasPort := False\<rparr>
      in case parseUserInfo st authority of
           Inl e \<Rightarrow> Inl e
         | Inr None \<Rightarrow> Inr (False, st)
         | Inr (Some (st1, nextIdx)) \<Rightarrow> Inr (parsePort st1 authority nextIdx))"

subsection \<open>\<open>Uri::ParseFromString\<close>\<close>

text \<open>The loop of the path stage (lines 114 to 127), with the vector \<open>impl_->path\<close> as
  accumulator.\<close>

function path_loop :: "string list \<Rightarrow> string \<Rightarrow> string list" where
  "path_loop segs rest =
     (case str_find rest ''/'' 0 of
        None \<Rightarrow> segs @ [rest]
      | Some pathDelimiter \<Rightarrow>
          path_loop (segs @ [take pathDelimiter rest]) (substr_from rest (pathDelimiter + 1)))"
  by pat_completeness auto
termination
proof (relation "measure (\<lambda>(segs, rest). length rest)")
  show "wf (measure (\<lambda>(segs, rest). length rest))"
    by simp
next
  fix segs :: "string list" and rest :: string and d :: nat
  assume "str_find rest ''/'' 0 = Some d"
  then have "rest \<noteq> []"
    by (auto simp: str_find_def)
  then show "((segs @ [take d rest], substr_from rest (d + 1)), (segs, rest))
               \<in> measure (\<lambda>(segs, rest). length rest)"
    by (simp add: substr_from_def)
qed

text \<open>Lines 105 to 128: the path stage, after \<open>impl_->path.clear()\<close>.\<close>

definition parsePath :: "string \<Rightarrow> string list" where
  "parsePath rest =
     (if rest = ''/'' then [[]]
      else if rest \<noteq> [] then path_loop [] rest
      else [])"

text \<open>The result is the exception thrown, or the boolean returned and the state left in
  the instance.\<close>

definition ParseFromString :: "Impl \<Rightarrow> string \<Rightarrow> exn + (bool \<times> Impl)" where
  "ParseFromString st0 uriString =
     (case parseScheme uriString of
        None \<Rightarrow> Inr (False, st0)
      | Some (schemeString, nextIdx) \<Rightarrow>
          (let st1 = st0\<lparr>scheme := schemeString\<rparr>;
               rest = substr_from uriString nextIdx;
               (authority, nextIdx2) = parseAuthority rest
           in case parseAuthorityComponents st1 authority of
                Inl e \<Rightarrow> Inl e
              | Inr (ok, st2) \<Rightarrow>
                  if \<not> ok then Inr (False, st2)
                  else
                    (let rest1 = substr_from rest nextIdx2;
                         st3 = st2\<lparr>fragment := []\<rparr>;
                         (st4, rest2) =
                           (case str_find rest1 ''#'' 0 of
                              Some f \<Rightarrow>
                                (st3\<lparr>fragment := substr_from rest1 (f + 1)\<rparr>, substr rest1 0 f)
                            | None \<Rightarrow> (st3, rest1));
                         st5 = st4\<lparr>query := []\<rparr>;
                         (st6, rest3) =
                           (case str_find rest2 ''?'' 0 of
                              Some q \<Rightarrow>
                                (st5\<lparr>query := substr_from rest2 (q + 1)\<rparr>, substr rest2 0 q)
                            | None \<Rightarrow> (st5, rest2))
                     in Inr (True, st6\<lparr>path := parsePath rest3\<rparr>))))"

subsection \<open>The accessors\<close>

definition IsRelativeReference :: "Impl \<Rightarrow> bool" where
  "IsRelativeReference st = (scheme st = [])"

definition ContainsRelativePath :: "Impl \<Rightarrow> bool" where
  "ContainsRelativePath st = (if path st = [] then True else path st ! 0 \<noteq> [])"

subsection \<open>The scheme stage of the earlier revision\<close>

text \<open>The file \<open>src/src/Uri.cpp\<close> is an earlier revision of the same file: its userinfo
  branch is a \<open>TODO\<close> and it has no \<open>GetUserInfo\<close>, which the header declares and the
  tests call. Apart from the userinfo it differs in \<open>parseScheme\<close> only, which returns the
  scheme itself, looks for \<open>"./"\<close> instead of \<open>"/"\<close> before the colon and validates
  nothing. The theorems below are about the latest revision; this definition records the
  difference.\<close>

definition parseScheme_earlier :: "string \<Rightarrow> string \<times> nat" where
  "parseScheme_earlier uri =
     (case str_find uri '':'' 0 of
        None \<Rightarrow> ([], 0)
      | Some schemeEnd \<Rightarrow>
          if (case str_find uri ''./'' 0 of
                None \<Rightarrow> False
              | Some dotSegment \<Rightarrow> dotSegment < schemeEnd)
          then ([], 0)
          else (substr uri 0 schemeEnd, schemeEnd + 1))"

section \<open>Notions of the specification\<close>

text \<open>The definitions of this section follow the words of the specification, not the
  code; the theorems below compare the two.\<close>

subsection \<open>Splitting at the first occurrence of a character\<close>

text \<open>Everything before the first \<open>c\<close> (the whole text if there is none), and everything
  after it (the empty text if there is none).\<close>

definition before_first :: "char \<Rightarrow> string \<Rightarrow> string" where
  "before_first c s = takeWhile (\<lambda>x. x \<noteq> c) s"

definition after_first :: "char \<Rightarrow> string \<Rightarrow> string" where
  "after_first c s = drop 1 (dropWhile (\<lambda>x. x \<noteq> c) s)"

text \<open>The text after the last \<open>c\<close> (the whole text if there is none).\<close>

definition after_last :: "char \<Rightarrow> string \<Rightarrow> string" where
  "after_last c s = rev (takeWhile (\<lambda>x. x \<noteq> c) (rev s))"

subsection \<open>Splitting on every occurrence of a character\<close>

text \<open>One segment per occurrence of \<open>c\<close> and one more, empty segments kept.\<close>

fun split_on :: "char \<Rightarrow> string \<Rightarrow> string list" where
  "split_on c [] = [[]]"
| "split_on c (x # xs) =
     (if x = c then [] # split_on c xs
      else (case split_on c xs of
              seg # segs \<Rightarrow> (x # seg) # segs
            | [] \<Rightarrow> [[x]]))"

text \<open>The segments written one after the other with \<open>c\<close> between them.\<close>

fun join_with :: "char \<Rightarrow> string list \<Rightarrow> string" where
  "join_with c [] = []"
| "join_with c [s] = s"
| "join_with c (s # t # r) = s @ c # join_with c (t # r)"

subsection \<open>Decimal numbers\<close>

text \<open>The ASCII digits, and the value of a text of digits read as a decimal number.\<close>

definition DIGIT :: "char \<Rightarrow> bool" where
  "DIGIT c = (c \<in> set ''0123456789'')"

definition decimal_from :: "nat \<Rightarrow> string \<Rightarrow> nat" where
  "decimal_from a ds = foldl (\<lambda>v c. 10 * v + (code c - 48)) a ds"

definition decimal_value :: "string \<Rightarrow> nat" where
  "decimal_value ds = decimal_from 0 ds"

subsection \<open>The scheme grammar\<close>

text \<open>\<open>ALPHA (ALPHA / DIGIT / "+" / "-" / ".")*\<close>, with the letters of RFC 5234.\<close>

definition ALPHA :: "char \<Rightarrow> bool" where
  "ALPHA c = (c \<in> set ''ABCDEFGHIJKLMNOPQRSTUVWXYZabcdefghijklmnopqrstuvwxyz'')"

definition scheme_grammar :: "string \<Rightarrow> bool" where
  "scheme_grammar s =
     (case s of
        [] \<Rightarrow> False
      | c # cs \<Rightarrow>
          ALPHA c \<and>
          list_all (\<lambda>x. ALPHA x \<or> DIGIT x \<or> x = CHR ''+'' \<or> x = CHR ''-'' \<or> x = CHR ''.'') cs)"

subsection \<open>Inputs without a scheme\<close>

text \<open>No colon stands before any \<open>/\<close>: the text before the first \<open>/\<close> (the whole text if
  there is none) holds no colon.\<close>

definition no_colon_before_slash :: "string \<Rightarrow> bool" where
  "no_colon_before_slash s = (CHR '':'' \<notin> set (before_first CHR ''/'' s))"

text \<open>The parse succeeds with an empty scheme, and the entire input went through the
  fragment, query and path stages.\<close>

definition whole_input_is_path_query_fragment :: "Impl \<Rightarrow> string \<Rightarrow> bool" where
  "whole_input_is_path_query_fragment st s =
     (case ParseFromString st s of
        Inl e \<Rightarrow> False
      | Inr (ok, r) \<Rightarrow>
          ok \<and> scheme r = []
          \<and> fragment r = after_first CHR ''#'' s
          \<and> query r = after_first CHR ''?'' (before_first CHR ''#'' s)
          \<and> path r = parsePath (before_first CHR ''?'' (before_first CHR ''#'' s)))"

subsection \<open>The authority span\<close>

text \<open>The text just after the first \<open>//\<close>, and its part up to the first \<open>/\<close>, \<open>?\<close> or
  \<open>#\<close> (all of it if there is none).\<close>

fun after_double_slash :: "string \<Rightarrow> string option" where
  "after_double_slash (x # y # r) =
     (if x = CHR ''/'' \<and> y = CHR ''/'' then Some r else after_double_slash (y # r))"
| "after_double_slash r = None"

definition authority_span :: "string \<Rightarrow> string" where
  "authority_span r = takeWhile (\<lambda>x. x \<notin> set ''/?#'') r"

subsection \<open>The userinfo grammar and percent-decoding\<close>

text \<open>\<open>(pct-encoded / unreserved / sub-delims / ":")*\<close> with the sets of RFC 3986, a
  \<open>pct-encoded\<close> being a percent sign and two hexadecimal digits of either case.\<close>

definition HEXDIG :: "char \<Rightarrow> bool" where
  "HEXDIG c = (DIGIT c \<or> c \<in> set ''ABCDEFabcdef'')"

definition unreserved :: "char \<Rightarrow> bool" where
  "unreserved c = (ALPHA c \<or> DIGIT c \<or> c \<in> set ''-._~'')"

definition sub_delims :: "char \<Rightarrow> bool" where
  "sub_delims c = (c \<in> set ''!$&()*+,;='' \<or> c = CHR 0x27)"

inductive userinfo_grammar :: "string \<Rightarrow> bool" where
  empty: "userinfo_grammar []"
| pct: "HEXDIG h1 \<Longrightarrow> HEXDIG h2 \<Longrightarrow> userinfo_grammar r \<Longrightarrow>
        userinfo_grammar (CHR ''%'' # h1 # h2 # r)"
| chr: "unreserved c \<or> sub_delims c \<or> c = CHR '':'' \<Longrightarrow> userinfo_grammar r \<Longrightarrow>
        userinfo_grammar (c # r)"

code_pred userinfo_grammar .

text \<open>Every \<open>%XX\<close> replaced by the byte it encodes, from left to right; a byte that was
  decoded is not read again.\<close>

fun pct_decode :: "string \<Rightarrow> string" where
  "pct_decode (c # h1 # h2 # r) =
     (if c = CHR ''%'' then char_of (16 * hex_digit_value h1 + hex_digit_value h2) # pct_decode r
      else c # pct_decode (h1 # h2 # r))"
| "pct_decode (c # r) = c # pct_decode r"
| "pct_decode [] = []"

section \<open>Facts about the string operations\<close>

text \<open>The equations of the two loops are unfolded on demand only.\<close>

declare path_loop.simps [simp del] pct_loop.simps [simp del]

lemma find_sub_char:
  "find_sub [c] s =
     (if c \<in> set s then Some (length (takeWhile (\<lambda>x. x \<noteq> c) s)) else None)"
  by (induction s) auto

lemma str_find_char:
  "str_find s [c] 0 =
     (if c \<in> set s then Some (length (takeWhile (\<lambda>x. x \<noteq> c) s)) else None)"
  by (simp add: str_find_def find_sub_char)

lemma take_before_first: "take (length (takeWhile (\<lambda>x. x \<noteq> c) s)) s = before_first c s"
  unfolding before_first_def by (rule takeWhile_eq_take [symmetric])

lemma drop_after_first:
  "drop (Suc (length (takeWhile (\<lambda>x. x \<noteq> c) s))) s = after_first c s"
  unfolding after_first_def by (simp add: dropWhile_eq_drop)

lemma after_first_absent: "c \<notin> set s \<Longrightarrow> after_first c s = []"
proof -
  assume "c \<notin> set s"
  then have "dropWhile (\<lambda>x. x \<noteq> c) s = []"
    by (induction s) auto
  then show ?thesis
    by (simp only: after_first_def drop_Nil)
qed

lemma before_first_absent: "c \<notin> set s \<Longrightarrow> before_first c s = s"
  by (auto simp: before_first_def)

lemma split_on_absent: "c \<notin> set s \<Longrightarrow> split_on c s = [s]"
  by (induction s) auto

lemma split_on_first:
  "c \<in> set s \<Longrightarrow> split_on c s = before_first c s # split_on c (after_first c s)"
  by (induction s) (auto simp: before_first_def after_first_def split_on_absent)

lemma path_loop_split_on: "path_loop segs rest = segs @ split_on CHR ''/'' rest"
proof (induction segs rest rule: path_loop.induct)
  case (1 segs rest)
  show ?case
  proof (cases "CHR ''/'' \<in> set rest")
    case False
    then show ?thesis
      by (subst path_loop.simps) (simp add: str_find_char split_on_absent)
  next
    case True
    let ?d = "length (takeWhile (\<lambda>x. x \<noteq> CHR ''/'') rest)"
    have found: "str_find rest ''/'' 0 = Some ?d"
      using True by (simp add: str_find_char)
    have "path_loop segs rest
            = path_loop (segs @ [take ?d rest]) (substr_from rest (?d + 1))"
      by (subst path_loop.simps) (simp add: found)
    also have "\<dots> = (segs @ [take ?d rest]) @ split_on CHR ''/'' (substr_from rest (?d + 1))"
      using "1.IH" [OF found] .
    also have "\<dots> = segs @ split_on CHR ''/'' rest"
      using True
      by (simp add: split_on_first take_before_first substr_from_def drop_after_first)
    finally show ?thesis .
  qed
qed

lemma join_split_on: "join_with c (split_on c s) = s"
proof (induction s)
  case Nil
  show ?case by simp
next
  case (Cons x xs)
  show ?case
  proof (cases "split_on c xs")
    case Nil
    with Cons show ?thesis by simp
  next
    case (Cons seg segs)
    with Cons.IH show ?thesis
      by (cases segs) auto
  qed
qed

lemma split_on_not_Nil: "split_on c s \<noteq> []"
  by (induction s) (auto split: list.splits)

lemma split_on_segments: "list_all (\<lambda>seg. c \<notin> set seg) (split_on c s)"
  by (induction s) (auto split: list.splits)

lemma length_split_on: "length (split_on c s) = Suc (count_list s c)"
  by (induction s) (auto split: list.splits)

lemma last_split_on: "last (split_on c s) = after_last c s"
proof (induction s)
  case Nil
  show ?case by (simp add: after_last_def)
next
  case (Cons x xs)
  have ne: "split_on c xs \<noteq> []"
    by (rule split_on_not_Nil)
  show ?case
  proof (cases "c \<in> set xs")
    case True
    then have "c \<in> set (rev xs)"
      by simp
    then have "takeWhile (\<lambda>x. x \<noteq> c) (rev xs @ [x]) = takeWhile (\<lambda>x. x \<noteq> c) (rev xs)"
      by (rule takeWhile_append1) simp
    then have "after_last c (x # xs) = after_last c xs"
      by (simp add: after_last_def)
    moreover have "last (split_on c (x # xs)) = last (split_on c xs)"
    proof (cases "split_on c xs")
      case Nil
      with ne show ?thesis by simp
    next
      case (Cons seg segs)
      have "split_on c (after_first c xs) \<noteq> []"
        by (rule split_on_not_Nil)
      with Cons split_on_first [OF True] have "segs \<noteq> []"
        by simp
      with Cons show ?thesis
        by simp
    qed
    ultimately show ?thesis
      using Cons by simp
  next
    case False
    then show ?thesis
      by (auto simp: split_on_absent after_last_def takeWhile_append)
  qed
qed

lemma substr_from_after_first:
  "substr_from r (Suc (length (takeWhile (\<lambda>x. x \<noteq> c) r))) = after_first c r"
  by (simp add: substr_from_def drop_after_first)

lemma substr_before_first:
  "substr r 0 (length (takeWhile (\<lambda>x. x \<noteq> c) r)) = before_first c r"
  by (simp add: substr_def take_before_first)

lemma str_find_char_from:
  "k \<le> length s \<Longrightarrow>
   str_find s [c] k =
     (if c \<in> set (drop k s)
      then Some (length (takeWhile (\<lambda>x. x \<noteq> c) (drop k s)) + k) else None)"
  by (simp add: str_find_def find_sub_char)

lemma length_takeWhile_found:
  "c \<in> set xs \<Longrightarrow> length (takeWhile (\<lambda>x. x \<noteq> c) xs) < length xs"
  by (induction xs) auto

lemma str_find_bounds:
  assumes "str_find s [c] k = Some p"
  shows "k \<le> p" and "p < length s"
proof -
  from assms have k: "k \<le> length s"
    by (simp add: str_find_def split: if_splits)
  from assms have mem: "c \<in> set (drop k s)"
    and p: "p = length (takeWhile (\<lambda>x. x \<noteq> c) (drop k s)) + k"
    by (auto simp: str_find_char_from [OF k] split: if_splits)
  show "k \<le> p"
    by (simp add: p)
  have "length (takeWhile (\<lambda>x. x \<noteq> c) (drop k s)) < length (drop k s)"
    using mem by (rule length_takeWhile_found)
  with k show "p < length s"
    by (simp add: p)
qed

lemma str_find_append_char:
  assumes "str_find s [c] k = Some p"
  shows "str_find (s @ t) [c] k = Some p"
proof -
  from assms have k: "k \<le> length s"
    by (simp add: str_find_def split: if_splits)
  from assms have mem: "c \<in> set (drop k s)"
    and p: "p = length (takeWhile (\<lambda>x. x \<noteq> c) (drop k s)) + k"
    by (auto simp: str_find_char_from [OF k] split: if_splits)
  have "takeWhile (\<lambda>x. x \<noteq> c) (drop k s @ t) = takeWhile (\<lambda>x. x \<noteq> c) (drop k s)"
    using mem by (intro takeWhile_append1 [of c]) auto
  with k mem p show ?thesis
    by (simp add: str_find_char_from)
qed

lemma str_find_append_absent:
  assumes "str_find s [c] 0 = None" and "c \<notin> set t"
  shows "str_find (s @ t) [c] 0 = None"
  using assms by (simp add: str_find_char split: if_splits)

section \<open>Facts about the port loop\<close>

subsection \<open>The 32-bit accumulator\<close>

lemma mask_const: "(word_of_int (NOT (push_bit 16 1 - 1)) :: 32 word) = NOT (mask 16)"
  by (simp add: mask_eq_exp_minus_1)

lemma hb1: "(w AND NOT (mask 16) = 0) = (take_bit 16 w = w)" for w :: "32 word"
  by (auto simp: bit_eq_iff bit_simps)

lemma hb2: "(take_bit 16 w = w) = (unat w < 2 ^ 16)" for w :: "32 word"
proof -
  have "(take_bit 16 w = w) = (unat (take_bit 16 w) = unat w)"
    by (simp add: word_unat_eq_iff)
  also have "\<dots> = (take_bit 16 (unat w) = unat w)"
    by (simp add: unsigned_take_bit_eq)
  also have "\<dots> = (unat w < 2 ^ 16)"
    by (simp add: take_bit_nat_eq_self_iff)
  finally show ?thesis .
qed

lemma high_bits: "(w AND word_of_int (NOT (push_bit 16 1 - 1)) \<noteq> 0) \<longleftrightarrow> 65535 < unat w" for w :: "32 word"
proof -
  have "(w AND word_of_int (NOT (push_bit 16 1 - 1)) = 0) = (unat w < 2 ^ 16)"
    by (simp only: mask_const hb1 hb2)
  then show ?thesis
    by auto
qed

lemma port_step:
  assumes "unat p \<le> 65535" and "d \<le> 9"
  shows "unat (p * 10 + ucast (word_of_int (int d) :: 16 word) :: 32 word) = unat p * 10 + d"
proof -
  have d: "unat (ucast (word_of_int (int d) :: 16 word) :: 32 word) = d"
  proof -
    have "unat (word_of_nat d :: 16 word) = d"
      using assms(2) by (simp add: unat_of_nat)
    moreover have "take_bit 32 d = d"
      using assms(2) by (simp add: take_bit_nat_eq_self)
    ultimately show ?thesis
      by (simp add: unsigned_ucast_eq)
  qed
  have "unat p * unat (10 :: 32 word) < 2 ^ LENGTH(32)"
    using assms(1) by simp
  then have m: "unat (p * 10) = unat p * 10"
    by (simp add: unat_mult_lem [THEN iffD1])
  have "unat (p * 10) + unat (ucast (word_of_int (int d) :: 16 word) :: 32 word) < 2 ^ LENGTH(32)"
    using assms m d by simp
  then have "unat (p * 10 + ucast (word_of_int (int d) :: 16 word))
               = unat (p * 10) + unat (ucast (word_of_int (int d) :: 16 word) :: 32 word)"
    by (rule unat_add_lem [THEN iffD1])
  with m d show ?thesis
    by simp
qed

subsection \<open>Character classes by their codes\<close>

lemma mem_code: "c \<in> set cs \<longleftrightarrow> code c \<in> set (map code cs)"
  by (auto simp: code_def)

lemma DIGIT_iff: "DIGIT c \<longleftrightarrow> is_digit c"
  unfolding DIGIT_def is_digit_def mem_code [of c]
  by (simp add: code_def) arith

subsection \<open>The loop computes the decimal value\<close>

lemma decimal_from_mono: "a \<le> decimal_from a ds"
proof (induction ds arbitrary: a)
  case Nil
  show ?case by (simp add: decimal_from_def)
next
  case (Cons c cs)
  have "a \<le> 10 * a + (code c - 48)"
    by simp
  also have "\<dots> \<le> decimal_from (10 * a + (code c - 48)) cs"
    by (rule Cons.IH)
  finally show ?case
    by (simp add: decimal_from_def)
qed

lemma decimal_from_Cons:
  "decimal_from a (c # cs) = decimal_from (10 * a + (code c - 48)) cs"
  by (simp add: decimal_from_def)

lemma decimal_from_append:
  "decimal_from a (xs @ ys) = decimal_from (decimal_from a xs) ys"
  by (simp add: decimal_from_def)

lemma decimal_value_prefix: "decimal_value (take j ds) \<le> decimal_value ds"
proof -
  have "decimal_value ds = decimal_from (decimal_value (take j ds)) (drop j ds)"
    unfolding decimal_value_def decimal_from_append [symmetric] by simp
  then show ?thesis
    by (simp add: decimal_from_mono)
qed

lemma exceeds_at_some_point:
  "(\<exists>j\<le>length ds. 65535 < decimal_value (take j ds)) \<longleftrightarrow> 65535 < decimal_value ds"
proof
  assume "\<exists>j\<le>length ds. 65535 < decimal_value (take j ds)"
  then obtain j where "65535 < decimal_value (take j ds)"
    by blast
  with decimal_value_prefix [of j ds] show "65535 < decimal_value ds"
    by simp
next
  assume "65535 < decimal_value ds"
  then have "length ds \<le> length ds \<and> 65535 < decimal_value (take (length ds) ds)"
    by simp
  then show "\<exists>j\<le>length ds. 65535 < decimal_value (take j ds)"
    by blast
qed

lemma port_loop_decimal:
  "unat p \<le> 65535 \<Longrightarrow>
   port_loop p ds =
     (if list_all is_digit ds \<and> decimal_from (unat p) ds \<le> 65535
      then Some (word_of_nat (decimal_from (unat p) ds)) else None)"
proof (induction ds arbitrary: p)
  case Nil
  then show ?case
    by (simp add: decimal_from_def)
next
  case (Cons c cs)
  show ?case
  proof (cases "is_digit c")
    case False
    then show ?thesis
      by (auto simp: is_digit_def code_def)
  next
    case True
    define d where "d = code c - 48"
    define p2 :: "32 word" where
      "p2 = p * 10 + ucast (word_of_int (int (code c) - int (code CHR ''0'')) :: 16 word)"
    from True have d: "d \<le> 9" and cd: "int (code c) - int (code CHR ''0'') = int d"
      by (auto simp: is_digit_def d_def code_def)
    have p2: "unat p2 = 10 * unat p + d"
      using port_step [OF Cons.prems d] by (simp add: p2_def cd)
    have unfold: "port_loop p (c # cs) =
                    (if 65535 < unat p2 then None else port_loop p2 cs)"
    proof -
      have nd: "\<not> (code c < code CHR ''0'' \<or> code c > code CHR ''9'')"
        using True by (simp add: is_digit_def code_def)
      show ?thesis
        by (simp only: port_loop.simps Let_def p2_def [symmetric] high_bits nd if_False)
    qed
    show ?thesis
    proof (cases "65535 < unat p2")
      case True
      with decimal_from_mono [of "unat p2" cs] have "65535 < decimal_from (unat p) (c # cs)"
        by (simp add: decimal_from_Cons p2 d_def)
      with True unfold show ?thesis
        by simp
    next
      case False
      then have "unat p2 \<le> 65535"
        by simp
      from Cons.IH [OF this] unfold False \<open>is_digit c\<close> show ?thesis
        by (simp add: decimal_from_Cons p2 d_def)
    qed
  qed
qed

lemma port_loop_0:
  "port_loop 0 ds =
     (if list_all is_digit ds \<and> decimal_value ds \<le> 65535
      then Some (word_of_nat (decimal_value ds)) else None)"
  using port_loop_decimal [of 0 ds] by (simp add: decimal_value_def)

lemma port_cast:
  "v \<le> 65535 \<Longrightarrow> unat (ucast (word_of_nat v :: 32 word) :: 16 word) = v"
  by (simp add: unsigned_ucast_eq unat_of_nat take_bit_nat_eq_self)

lemma ALPHA_iff: "ALPHA c \<longleftrightarrow> is_alpha c"
  unfolding ALPHA_def is_alpha_def mem_code [of c]
  by (simp add: code_def) arith

lemma scheme_class_iff:
  "scheme_class x \<longleftrightarrow> ALPHA x \<or> DIGIT x \<or> x = CHR ''+'' \<or> x = CHR ''-'' \<or> x = CHR ''.''"
  by (auto simp: scheme_class_def ALPHA_iff DIGIT_iff)

lemma scheme_regex_grammar: "scheme_regex s \<longleftrightarrow> scheme_grammar s"
  by (cases s) (simp_all add: scheme_grammar_def ALPHA_iff scheme_class_iff [abs_def])

section \<open>Parses of concrete inputs\<close>

text \<open>The parses below hold from every prior state \<open>st\<close> of the instance.\<close>

lemmas parse_defs = ParseFromString_def parseScheme_def parseAuthority_def parseAuthorityComponents_def
  parseUserInfo_def parsePort_def parsePath_def str_find_def find_first_of_def substr_def substr_from_def
  is_alpha_def is_digit_def is_hex_def scheme_class_def userinfo_class_def code_def
  path_loop_split_on pct_loop.simps Let_def

lemma parse_empty:
  "ParseFromString st [] =
     Inr (True, st\<lparr>scheme := [], userInfo := [], host := [], port := 0, hasPort := False,
                   fragment := [], query := [], path := []\<rparr>)"
  by (simp add: parse_defs)

lemma parse_slash:
  "ParseFromString st ''/'' =
     Inr (True, st\<lparr>scheme := [], userInfo := [], host := [], port := 0, hasPort := False,
                   fragment := [], query := [], path := [[]]\<rparr>)"
  by (simp add: parse_defs)

lemma parse_slash_foo:
  "ParseFromString st ''/foo'' =
     Inr (True, st\<lparr>scheme := [], userInfo := [], host := [], port := 0, hasPort := False,
                   fragment := [], query := [], path := [[], ''foo'']\<rparr>)"
  by (simp add: parse_defs)

lemma parse_foo_slash:
  "ParseFromString st ''foo/'' =
     Inr (True, st\<lparr>scheme := [], userInfo := [], host := [], port := 0, hasPort := False,
                   fragment := [], query := [], path := [''foo'', []]\<rparr>)"
  by (simp add: parse_defs)

lemma parse_network_path:
  "ParseFromString st ''//example.com'' =
     Inr (True, st\<lparr>scheme := [], userInfo := [], host := ''example.com'', port := 0,
                   hasPort := False, fragment := [], query := [], path := []\<rparr>)"
  by (simp add: parse_defs)

lemma parse_http_example:
  "ParseFromString st ''http://example.com'' =
     Inr (True, st\<lparr>scheme := ''http'', userInfo := [], host := ''example.com'', port := 0,
                   hasPort := False, fragment := [], query := [], path := []\<rparr>)"
  by (simp add: parse_defs)

lemma parse_joe:
  "ParseFromString st ''http://joe@www.example.com:8080/foo/bar'' =
     Inr (True, st\<lparr>scheme := ''http'', userInfo := ''joe'', host := ''www.example.com'',
                   port := 8080, hasPort := True, fragment := [], query := [],
                   path := [[], ''foo'', ''bar'']\<rparr>)"
  by (simp add: parse_defs)

lemma parse_foo_bar:
  "ParseFromString st ''/foo/bar'' =
     Inr (True, st\<lparr>scheme := [], userInfo := [], host := [], port := 0, hasPort := False,
                   fragment := [], query := [], path := [[], ''foo'', ''bar'']\<rparr>)"
  by (simp add: parse_defs)

text \<open>Evaluating \<open>std::stoi\<close> and the cast to \<open>char\<close>.\<close>

lemma char_of_int_eq_iff: "char_of (v :: int) = c \<longleftrightarrow> v mod 256 = of_char c"
proof
  assume "char_of v = c"
  then have "of_char (char_of v) = (of_char c :: int)"
    by simp
  then show "v mod 256 = of_char c"
    by simp
next
  assume "v mod 256 = of_char c"
  then have "char_of (v mod 256) = char_of (of_char c :: int)"
    by simp
  then show "char_of v = c"
    by simp
qed

lemmas stoi_defs = stoi16_def hex_value_def hex_digit_value_def is_space_def char_of_int_eq_iff

lemma parse_x_host_p:
  "ParseFromString st ''x//host/p'' =
     Inr (True, st\<lparr>scheme := [], userInfo := [], host := ''host/'', port := 0, hasPort := False,
                   fragment := [], query := [], path := [[], ''p'']\<rparr>)"
  by (simp add: parse_defs)

section \<open>The stages of a successful parse\<close>

text \<open>When the scheme and the authority are accepted, the result is the state the
  authority stage left, with the fragment, the query and the path taken from the remainder
  behind the authority.\<close>

lemma ParseFromString_stages:
  assumes "parseScheme s = Some (sch, n)"
    and "parseAuthority (substr_from s n) = (a, m)"
    and "parseAuthorityComponents (st\<lparr>scheme := sch\<rparr>) a = Inr (True, st2)"
  shows "ParseFromString st s =
           Inr (True, st2\<lparr>fragment := after_first CHR ''#'' (substr_from (substr_from s n) m),
                          query := after_first CHR ''?''
                                     (before_first CHR ''#'' (substr_from (substr_from s n) m)),
                          path := parsePath
                                    (before_first CHR ''?''
                                       (before_first CHR ''#''
                                          (substr_from (substr_from s n) m)))\<rparr>)"
  using assms
  by (simp add: ParseFromString_def Let_def str_find_char substr_from_after_first
        substr_before_first after_first_absent before_first_absent)

lemma parseAuthorityComponents_empty:
  "parseAuthorityComponents st [] =
     Inr (True, st\<lparr>userInfo := [], host := [], port := 0, hasPort := False\<rparr>)"
  by (simp add: parse_defs)

text \<open>The authority stage writes the four authority fields and reads nothing of the
  state, and a successful parse writes every field.\<close>

lemma parseAuthorityComponents_frame:
  assumes "parseAuthorityComponents st a = Inr (ok, st2)"
  shows "st2 = st\<lparr>userInfo := userInfo st2, host := host st2, port := port st2,
                    hasPort := hasPort st2\<rparr>"
    and "parseAuthorityComponents st' a =
           Inr (ok, st'\<lparr>userInfo := userInfo st2, host := host st2, port := port st2,
                        hasPort := hasPort st2\<rparr>)"
  using assms
  by (auto simp: parseAuthorityComponents_def parseUserInfo_def parsePort_def Let_def
        split: option.splits sum.splits if_splits)

lemma ParseFromString_success:
  assumes "ParseFromString st s = Inr (True, r)"
  obtains sch n a m st2 where "parseScheme s = Some (sch, n)"
    and "parseAuthority (substr_from s n) = (a, m)"
    and "parseAuthorityComponents (st\<lparr>scheme := sch\<rparr>) a = Inr (True, st2)"
  using assms
  by (auto simp: ParseFromString_def Let_def split: option.splits sum.splits if_splits prod.splits)

lemma ParseFromString_independent:
  assumes "ParseFromString st s = Inr (True, r)"
  shows "ParseFromString st' s = Inr (True, r)"
proof -
  from assms obtain sch n a m st2 where sch: "parseScheme s = Some (sch, n)"
    and auth: "parseAuthority (substr_from s n) = (a, m)"
    and comp: "parseAuthorityComponents (st\<lparr>scheme := sch\<rparr>) a = Inr (True, st2)"
    by (rule ParseFromString_success)
  let ?f = "after_first CHR ''#'' (substr_from (substr_from s n) m)"
  let ?q = "after_first CHR ''?'' (before_first CHR ''#'' (substr_from (substr_from s n) m))"
  let ?p = "parsePath (before_first CHR ''?''
                         (before_first CHR ''#'' (substr_from (substr_from s n) m)))"
  have r: "r = st2\<lparr>fragment := ?f, query := ?q, path := ?p\<rparr>"
    using ParseFromString_stages [OF sch auth comp] assms by simp
  let ?st2' = "st'\<lparr>scheme := sch, userInfo := userInfo st2, host := host st2, port := port st2,
                   hasPort := hasPort st2\<rparr>"
  have comp': "parseAuthorityComponents (st'\<lparr>scheme := sch\<rparr>) a = Inr (True, ?st2')"
    using parseAuthorityComponents_frame(2) [OF comp, of "st'\<lparr>scheme := sch\<rparr>"] by simp
  have st2: "st2 = st\<lparr>scheme := sch, userInfo := userInfo st2, host := host st2,
                        port := port st2, hasPort := hasPort st2\<rparr>"
    using parseAuthorityComponents_frame(1) [OF comp] by simp
  have "ParseFromString st' s = Inr (True, ?st2'\<lparr>fragment := ?f, query := ?q, path := ?p\<rparr>)"
    by (rule ParseFromString_stages [OF sch auth comp'])
  moreover have "?st2'\<lparr>fragment := ?f, query := ?q, path := ?p\<rparr> = r"
    by (subst r, subst st2) (cases st, cases st', simp)
  ultimately show ?thesis
    by simp
qed

text \<open>What a parse that reaches the port delimiter returns.\<close>

lemma ParseFromString_port:
  assumes "parseScheme s = Some (sch, n)"
    and "parseAuthority (substr_from s n) = (a, m)"
    and "parseUserInfo (st\<lparr>scheme := sch, userInfo := [], host := [], port := 0,
                            hasPort := False\<rparr>) a = Inr (Some (st1, k))"
    and "str_find a '':'' k = Some p"
  shows "port_loop 0 (substr_from a (p + 1)) = None \<Longrightarrow> ParseFromString st s = Inr (False, st1)"
    and "port_loop 0 (substr_from a (p + 1)) = Some w \<Longrightarrow>
         \<exists>r. ParseFromString st s = Inr (True, r) \<and> hasPort r = True \<and> port r = ucast w
             \<and> host r = substr a k (p - k)"
proof -
  assume none: "port_loop 0 (substr_from a (p + 1)) = None"
  have "parseAuthorityComponents (st\<lparr>scheme := sch\<rparr>) a = Inr (False, st1)"
    using assms(3,4) none by (simp add: parseAuthorityComponents_def parsePort_def)
  then show "ParseFromString st s = Inr (False, st1)"
    using assms(1,2) by (simp add: ParseFromString_def)
next
  assume some: "port_loop 0 (substr_from a (p + 1)) = Some w"
  have "parseAuthorityComponents (st\<lparr>scheme := sch\<rparr>) a =
          Inr (True, st1\<lparr>port := ucast w, hasPort := True, host := substr a k (p - k)\<rparr>)"
    using assms(3,4) some by (simp add: parseAuthorityComponents_def parsePort_def)
  from ParseFromString_stages [OF assms(1,2) this]
  show "\<exists>r. ParseFromString st s = Inr (True, r) \<and> hasPort r = True \<and> port r = ucast w
             \<and> host r = substr a k (p - k)"
    by simp
qed

text \<open>Text appended behind the authority: the userinfo stage does not see it unless it
  holds an \<open>@\<close>, and a \<open>0\<close> behind a final port delimiter changes nothing.\<close>

lemma parseUserInfo_index:
  assumes "parseUserInfo st a = Inr (Some (st1, k))"
  shows "k \<le> length a"
proof (cases "str_find a ''@'' 0")
  case None
  with assms show ?thesis
    by (simp add: parseUserInfo_def)
next
  case (Some d)
  from str_find_bounds(2) [OF Some] have "d < length a" .
  moreover from assms Some have "k = d + 1"
    by (auto simp: parseUserInfo_def Let_def split: if_splits sum.splits)
  ultimately show ?thesis
    by simp
qed

lemma parseUserInfo_append:
  assumes "CHR ''@'' \<notin> set t"
  shows "parseUserInfo st (a @ t) = parseUserInfo st a"
proof (cases "str_find a ''@'' 0")
  case None
  from None assms have "str_find (a @ t) ''@'' 0 = None"
    by (rule str_find_append_absent)
  with None show ?thesis
    by (simp add: parseUserInfo_def)
next
  case (Some d)
  then have found: "str_find (a @ t) ''@'' 0 = Some d"
    by (rule str_find_append_char)
  from str_find_bounds(2) [OF Some] have "substr (a @ t) 0 d = substr a 0 d"
    by (simp add: substr_def)
  with Some found show ?thesis
    by (simp add: parseUserInfo_def)
qed

lemma parsePort_trailing_zero:
  assumes "str_find a '':'' k = Some p" and "Suc p = length a"
  shows "parsePort st (a @ ''0'') k = parsePort st a k"
proof -
  have found: "str_find (a @ ''0'') '':'' k = Some p"
    using assms(1) by (rule str_find_append_char)
  have k: "k \<le> p"
    using str_find_bounds(1) [OF assms(1)] .
  have text0: "substr_from (a @ ''0'') (Suc p) = ''0''" and text1: "substr_from a (Suc p) = []"
    using assms(2) by (simp_all add: substr_from_def)
  have host_eq: "substr (a @ ''0'') k (p - k) = substr a k (p - k)"
    using k assms(2) by (simp add: substr_def)
  have loop: "port_loop 0 ''0'' = Some 0" "port_loop 0 [] = Some 0"
    by (simp_all add: port_loop_0 is_digit_def code_def decimal_value_def decimal_from_def)
  show ?thesis
    by (simp add: parsePort_def assms(1) found text0 text1 host_eq loop del: port_loop.simps)
qed

section \<open>Facts about the scheme stage\<close>

lemma before_other:
  "d \<noteq> c \<Longrightarrow> c \<in> set s \<Longrightarrow> c \<notin> set (takeWhile (\<lambda>x. x \<noteq> d) s) \<Longrightarrow>
   d \<in> set (takeWhile (\<lambda>x. x \<noteq> c) s)"
  by (induction s) (auto split: if_splits)

lemma before_other_not:
  "d \<in> set (takeWhile (\<lambda>x. x \<noteq> c) s) \<Longrightarrow> c \<notin> set (takeWhile (\<lambda>x. x \<noteq> d) s)"
  by (induction s) (auto split: if_splits)

lemma first_index_less:
  "d \<noteq> c \<Longrightarrow>
   (d \<in> set s \<and> length (takeWhile (\<lambda>x. x \<noteq> d) s) < length (takeWhile (\<lambda>x. x \<noteq> c) s))
     \<longleftrightarrow> d \<in> set (takeWhile (\<lambda>x. x \<noteq> c) s)"
  by (induction s) (auto split: if_splits)

lemma parseScheme_char:
  "parseScheme s =
     (if CHR '':'' \<notin> set s \<or> CHR ''/'' \<in> set (before_first CHR '':'' s) then Some ([], 0)
      else if scheme_regex (before_first CHR '':'' s)
           then Some (before_first CHR '':'' s, Suc (length (before_first CHR '':'' s)))
           else None)"
proof -
  have "(case str_find s ''/'' 0 of None \<Rightarrow> False
         | Some i \<Rightarrow> i < length (takeWhile (\<lambda>x. x \<noteq> CHR '':'') s))
        \<longleftrightarrow> CHR ''/'' \<in> set (before_first CHR '':'' s)"
    using first_index_less [of "CHR ''/''" "CHR '':''" s]
    by (auto simp add: str_find_char before_first_def)
  then show ?thesis
    by (simp add: parseScheme_def str_find_char substr_before_first Let_def)
       (simp add: before_first_def)
qed

lemma ParseFromString_scheme:
  assumes "parseScheme s = Some (sch, n)" and "ParseFromString st s = Inr (ok, r)"
  shows "scheme r = sch"
proof -
  obtain a m where auth: "parseAuthority (substr_from s n) = (a, m)"
    by (cases "parseAuthority (substr_from s n)")
  from assms auth obtain ok2 st2
    where comp: "parseAuthorityComponents (st\<lparr>scheme := sch\<rparr>) a = Inr (ok2, st2)"
      and r: "scheme r = scheme st2"
    by (auto simp: ParseFromString_def Let_def split: sum.splits if_splits option.splits)
  from parseAuthorityComponents_frame(1) [OF comp] have "scheme st2 = sch"
    by (cases st2) (cases st, auto)
  with r show ?thesis
    by simp
qed

text \<open>The earlier revision takes a candidate outside the grammar as the scheme, and takes
  a colon behind a \<open>/\<close> as the scheme delimiter.\<close>

lemma parseScheme_earlier_examples:
  "parseScheme_earlier ''1http://x'' = (''1http'', 6)"
  "parseScheme_earlier ''a/b:c'' = (''a/b'', 4)"
  "parseScheme_earlier ''./a:b'' = ([], 0)"
  "parseScheme ''1http://x'' = None"
  "parseScheme ''a/b:c'' = Some ([], 0)"
  by (simp_all add: parseScheme_earlier_def parse_defs)

section \<open>Facts about the authority stage\<close>

text \<open>An authority is recognised when no \<open>/\<close> stands before the first \<open>//\<close>. The text
  returned then starts just after the \<open>//\<close>, and its length is the length of the authority
  span plus the number of characters before the \<open>//\<close>.\<close>

lemma first_of_char:
  "first_of chars s =
     (if \<exists>x\<in>set s. x \<in> set chars
      then Some (length (takeWhile (\<lambda>x. x \<notin> set chars) s)) else None)"
  by (induction s) auto

lemma find_first_of_from:
  "k \<le> length s \<Longrightarrow>
   (case find_first_of s chars k of None \<Rightarrow> length s | Some e \<Rightarrow> e)
     = k + length (takeWhile (\<lambda>x. x \<notin> set chars) (drop k s))"
  by (auto simp: find_first_of_def first_of_char takeWhile_eq_all_conv [THEN iffD2])

lemma find_sub_double_slash:
  "CHR ''/'' \<notin> set p \<Longrightarrow> find_sub ''//'' (p @ CHR ''/'' # CHR ''/'' # r) = Some (length p)"
  by (induction p) auto

lemma parseAuthority_recognised:
  assumes "CHR ''/'' \<notin> set p"
  shows "parseAuthority (p @ ''//'' @ r) =
           (take (length (authority_span r) + length p) r,
            length p + 2 + length (authority_span r))"
proof -
  define uri where "uri = p @ ''//'' @ r"
  have dfs: "str_find uri ''//'' 0 = Some (length p)"
    using assms by (simp add: uri_def str_find_def find_sub_double_slash)
  have "takeWhile (\<lambda>x. x \<noteq> CHR ''/'') uri = p"
    using assms by (simp add: uri_def takeWhile_append)
  then have first: "str_find uri ''/'' 0 = Some (length p)"
    by (simp add: str_find_char uri_def)
  have "(case find_first_of uri ''/?#'' (length p + 2) of None \<Rightarrow> length uri | Some e \<Rightarrow> e)
        = (length p + 2) + length (takeWhile (\<lambda>x. x \<notin> set ''/?#'') (drop (length p + 2) uri))"
    by (rule find_first_of_from) (simp add: uri_def)
  also have "drop (length p + 2) uri = r"
    by (simp add: uri_def)
  finally have aend:
    "(case find_first_of uri ''/?#'' (length p + 2) of None \<Rightarrow> length uri | Some e \<Rightarrow> e)
        = length p + 2 + length (authority_span r)"
    by (simp only: authority_span_def)
  have sub: "substr uri (length p + 2) (length p + 2 + length (authority_span r) - 2)
               = take (length (authority_span r) + length p) r"
    by (simp add: substr_def uri_def add.commute)
  have "parseAuthority uri =
          (substr uri (length p + 2) (length p + 2 + length (authority_span r) - 2),
           length p + 2 + length (authority_span r))"
    by (simp only: parseAuthority_def dfs first aend option.case Let_def less_irrefl if_False)
  then have "parseAuthority uri =
          (take (length (authority_span r) + length p) r,
           length p + 2 + length (authority_span r))"
    by (simp only: sub)
  then show ?thesis
    by (simp only: uri_def)
qed

section \<open>Facts about the userinfo stage\<close>

lemma HEXDIG_iff: "HEXDIG c \<longleftrightarrow> is_hex c"
  unfolding HEXDIG_def is_hex_def DIGIT_iff mem_code [of c] is_digit_def
  by (simp add: code_def) arith

lemma userinfo_class_iff:
  "userinfo_class c \<longleftrightarrow> unreserved c \<or> sub_delims c \<or> c = CHR '':''"
  by (auto simp: userinfo_class_def unreserved_def sub_delims_def ALPHA_iff DIGIT_iff)

lemma userinfo_class_not_percent: "userinfo_class c \<Longrightarrow> c \<noteq> CHR ''%''"
  by (auto simp: userinfo_class_def is_digit_def is_alpha_def code_def)

lemma userinfo_regex_grammar: "userinfo_regex u \<longleftrightarrow> userinfo_grammar u"
proof
  show "userinfo_regex u \<Longrightarrow> userinfo_grammar u"
  proof (induction u rule: userinfo_regex.induct)
    case 1
    show ?case by (rule userinfo_grammar.empty)
  next
    case (2 c cs)
    show ?case
    proof (cases "c = CHR ''%''")
      case True
      with "2.prems" obtain h1 h2 r where cs: "cs = h1 # h2 # r"
        and hex: "is_hex h1" "is_hex h2" and r: "userinfo_regex r"
        by (auto split: list.splits)
      from "2.IH"(1) [OF True cs refl r] hex show ?thesis
        by (simp add: True cs userinfo_grammar.pct HEXDIG_iff)
    next
      case False
      with "2.prems" have "userinfo_class c" "userinfo_regex cs"
        by simp_all
      with "2.IH"(2) [OF False] show ?thesis
        by (simp add: userinfo_grammar.chr userinfo_class_iff)
    qed
  qed
next
  show "userinfo_grammar u \<Longrightarrow> userinfo_regex u"
  proof (induction rule: userinfo_grammar.induct)
    case empty
    show ?case by simp
  next
    case (pct h1 h2 r)
    then show ?case by (simp add: HEXDIG_iff)
  next
    case (chr c r)
    then have "userinfo_class c"
      by (simp add: userinfo_class_iff)
    with chr userinfo_class_not_percent [of c] show ?case
      by simp
  qed
qed


lemma stoi16_two_hex:
  assumes "is_hex h1" and "is_hex h2"
  shows "stoi16 [h1, h2] = Inr (16 * hex_digit_value h1 + hex_digit_value h2)"
proof -
  from assms(1) have "\<not> is_space h1" "h1 \<noteq> CHR ''-''" "h1 \<noteq> CHR ''+''"
    by (auto simp: is_hex_def is_digit_def is_space_def code_def)
  with assms show ?thesis
    by (simp add: stoi16_def hex_value_def)
qed

lemma pct_decode_plain: "c \<noteq> CHR ''%'' \<Longrightarrow> pct_decode (c # r) = c # pct_decode r"
  by (cases r rule: pct_decode.cases) auto

lemma pct_loop_no_percent: "CHR ''%'' \<notin> set p \<Longrightarrow> pct_loop p = Inr p"
  by (subst pct_loop.simps) (simp add: str_find_char)

lemma pct_loop_step:
  assumes "CHR ''%'' \<notin> set p" and "is_hex h1" and "is_hex h2"
  shows "pct_loop (p @ CHR ''%'' # h1 # h2 # r)
           = pct_loop (p @ char_of (16 * hex_digit_value h1 + hex_digit_value h2) # r)"
proof -
  let ?u = "p @ CHR ''%'' # h1 # h2 # r"
  have "takeWhile (\<lambda>x. x \<noteq> CHR ''%'') ?u = p"
    using assms(1) by (simp add: takeWhile_append)
  then have found: "str_find ?u ''%'' 0 = Some (length p)"
    by (simp add: str_find_char)
  have two: "substr ?u (length p + 1) 2 = [h1, h2]"
    by (simp add: substr_def)
  have rest: "substr ?u 0 (length p) = p" "substr_from ?u (length p + 3) = r"
    by (simp_all add: substr_def substr_from_def)
  show ?thesis
    by (subst pct_loop.simps)
       (simp only: found two rest stoi16_two_hex [OF assms(2,3)] option.case sum.case, simp)
qed

lemma pct_loop_decode:
  assumes "userinfo_grammar r" and "CHR ''%'' \<notin> set p" and "CHR ''%'' \<notin> set (pct_decode r)"
  shows "pct_loop (p @ r) = Inr (p @ pct_decode r)"
  using assms
proof (induction r arbitrary: p rule: userinfo_grammar.induct)
  case empty
  then show ?case
    by (simp add: pct_loop_no_percent)
next
  case (pct h1 h2 r)
  let ?b = "char_of (16 * hex_digit_value h1 + hex_digit_value h2)"
  from pct.prems(2) have b: "?b \<noteq> CHR ''%''" and r: "CHR ''%'' \<notin> set (pct_decode r)"
    by auto
  from pct.hyps have hex: "is_hex h1" "is_hex h2"
    by (simp_all add: HEXDIG_iff)
  have "pct_loop (p @ CHR ''%'' # h1 # h2 # r) = pct_loop ((p @ [?b]) @ r)"
    using pct_loop_step [OF pct.prems(1) hex] by simp
  also have "\<dots> = Inr ((p @ [?b]) @ pct_decode r)"
    using pct.prems(1) b r by (intro pct.IH) auto
  finally show ?case
    by simp
next
  case (chr c r)
  then have c: "c \<noteq> CHR ''%''"
    by (auto simp: unreserved_def sub_delims_def ALPHA_def DIGIT_def)
  with chr.prems(2) have r: "CHR ''%'' \<notin> set (pct_decode r)"
    by (simp add: pct_decode_plain)
  have "pct_loop (p @ c # r) = pct_loop ((p @ [c]) @ r)"
    by simp
  also have "\<dots> = Inr ((p @ [c]) @ pct_decode r)"
    using chr.prems(1) c r by (intro chr.IH) auto
  finally show ?case
    using c by (simp add: pct_decode_plain)
qed

lemma parsePort_userInfo: "parsePort st a k = (ok, st') \<Longrightarrow> userInfo st' = userInfo st"
  by (auto simp: parsePort_def split: option.splits)

lemma ParseFromString_userInfo:
  assumes "parseScheme s = Some (sch, n)"
    and "parseAuthority (substr_from s n) = (a, m)"
    and "parseAuthorityComponents (st\<lparr>scheme := sch\<rparr>) a = Inr (ok, st2)"
  shows "\<exists>r. ParseFromString st s = Inr (ok, r) \<and> userInfo r = userInfo st2"
proof (cases ok)
  case True
  with ParseFromString_stages [OF assms(1,2)] assms(3) show ?thesis
    by simp
next
  case False
  with assms show ?thesis
    by (simp add: ParseFromString_def)
qed

section \<open>The claims\<close>


subsection \<open>C1: the port number\<close>

text \<open>
  Claim C1. For every input whose authority has a port delimiter behind the userinfo (the
  scheme and the userinfo were accepted, and \<open>find(":", nextIdx)\<close> found the colon at \<open>p\<close>),
  \<open>ParseFromString\<close> returns false if the port text holds a character that is not a digit,
  or if the decimal value of one of its prefixes, the value accumulated at that point,
  exceeds 65535; otherwise it returns true with \<open>hasPort\<close> set and \<open>port\<close> equal to the
  decimal value of the port text. The accumulator never wraps: whenever the loop accepts a
  prefix of the port text, the 32-bit accumulator holds the decimal value of that prefix,
  which is at most 65535.
\<close>

theorem C1_port_number:
  assumes "parseScheme s = Some (sch, n)"
    and "parseAuthority (substr_from s n) = (a, m)"
    and "parseUserInfo (st\<lparr>scheme := sch, userInfo := [], host := [], port := 0,
                            hasPort := False\<rparr>) a = Inr (Some (st1, k))"
    and "str_find a '':'' k = Some p"
  shows "((\<exists>c\<in>set (substr_from a (p + 1)). \<not> DIGIT c)
          \<or> (\<exists>j\<le>length (substr_from a (p + 1)).
                65535 < decimal_value (take j (substr_from a (p + 1))))
          \<longrightarrow> (\<exists>r. ParseFromString st s = Inr (False, r)))
       \<and> (\<not> ((\<exists>c\<in>set (substr_from a (p + 1)). \<not> DIGIT c)
              \<or> (\<exists>j\<le>length (substr_from a (p + 1)).
                    65535 < decimal_value (take j (substr_from a (p + 1)))))
          \<longrightarrow> (\<exists>r. ParseFromString st s = Inr (True, r) \<and> hasPort r = True
                   \<and> unat (port r) = decimal_value (substr_from a (p + 1))))
       \<and> (\<forall>j w. port_loop 0 (take j (substr_from a (p + 1))) = Some w
             \<longrightarrow> unat w = decimal_value (take j (substr_from a (p + 1))) \<and> unat w \<le> 65535)"
proof -
  define pt where "pt = substr_from a (p + 1)"
  have digits: "(\<exists>c\<in>set pt. \<not> DIGIT c) \<longleftrightarrow> \<not> list_all is_digit pt"
    by (simp add: DIGIT_iff list_all_iff)
  note over = exceeds_at_some_point [of pt]
  have bad: "\<exists>r. ParseFromString st s = Inr (False, r)"
    if "(\<exists>c\<in>set pt. \<not> DIGIT c) \<or> (\<exists>j\<le>length pt. 65535 < decimal_value (take j pt))"
  proof -
    from that have "port_loop 0 pt = None"
      unfolding digits over by (auto simp: port_loop_0)
    then show ?thesis
      using ParseFromString_port(1) [OF assms] by (simp add: pt_def)
  qed
  have good: "\<exists>r. ParseFromString st s = Inr (True, r) \<and> hasPort r = True
                \<and> unat (port r) = decimal_value pt"
    if "\<not> ((\<exists>c\<in>set pt. \<not> DIGIT c) \<or> (\<exists>j\<le>length pt. 65535 < decimal_value (take j pt)))"
  proof -
    from that have ok: "list_all is_digit pt" "decimal_value pt \<le> 65535"
      unfolding digits over by auto
    then have "port_loop 0 pt = Some (word_of_nat (decimal_value pt))"
      by (simp add: port_loop_0)
    from ParseFromString_port(2) [OF assms this [unfolded pt_def]] ok(2) show ?thesis
      by (auto simp: pt_def port_cast)
  qed
  have nowrap: "unat w = decimal_value (take j pt) \<and> unat w \<le> 65535"
    if "port_loop 0 (take j pt) = Some w" for j w
    using that by (auto simp: port_loop_0 unat_of_nat split: if_splits)
  from bad good nowrap show ?thesis
    unfolding pt_def by blast
qed

theorem C1_witness:
  "(\<exists>r. ParseFromString Impl_new ''http://joe@www.example.com:8080/foo/bar'' = Inr (True, r)
        \<and> hasPort r = True \<and> unat (port r) = 8080)
   \<and> (\<exists>r. ParseFromString Impl_new ''http://www.example.com:65536/foo/bar'' = Inr (False, r))
   \<and> (\<exists>r. ParseFromString Impl_new ''http://www.example.com:8080spam/foo/bar'' = Inr (False, r))"
proof -
  have good: "\<exists>r. ParseFromString Impl_new ''http://joe@www.example.com:8080/foo/bar''
                    = Inr (True, r) \<and> hasPort r = True \<and> unat (port r) = 8080"
  proof -
    have 1: "parseScheme ''http://joe@www.example.com:8080/foo/bar'' = Some (''http'', 5)"
      by (simp add: parse_defs)
    have 2: "parseAuthority (substr_from ''http://joe@www.example.com:8080/foo/bar'' 5)
               = (''joe@www.example.com:8080'', 26)"
      by (simp add: parse_defs)
    have 3: "parseUserInfo (Impl_new\<lparr>scheme := ''http'', userInfo := [], host := [], port := 0,
                                     hasPort := False\<rparr>) ''joe@www.example.com:8080''
               = Inr (Some (Impl_new\<lparr>scheme := ''http'', userInfo := ''joe''\<rparr>, 4))"
      by (simp add: parse_defs Impl_new_def)
    have 4: "str_find ''joe@www.example.com:8080'' '':'' 4 = Some 19"
      by (simp add: parse_defs)
    have 5: "substr_from ''joe@www.example.com:8080'' (19 + 1) = ''8080''"
      by (simp add: substr_from_def)
    have 6: "\<not> ((\<exists>c\<in>set ''8080''. \<not> DIGIT c)
                \<or> (\<exists>j\<le>length ''8080''. 65535 < decimal_value (take j ''8080'')))"
      unfolding exceeds_at_some_point
      by (simp add: DIGIT_def decimal_value_def decimal_from_def code_def)
    have 7: "decimal_value ''8080'' = 8080"
      by (simp add: decimal_value_def decimal_from_def code_def)
    from C1_port_number [OF 1 2 3 4] 6 show ?thesis
      unfolding 5 7 by blast
  qed
  have too_big: "\<exists>r. ParseFromString Impl_new ''http://www.example.com:65536/foo/bar''
                       = Inr (False, r)"
  proof -
    have 1: "parseScheme ''http://www.example.com:65536/foo/bar'' = Some (''http'', 5)"
      by (simp add: parse_defs)
    have 2: "parseAuthority (substr_from ''http://www.example.com:65536/foo/bar'' 5)
               = (''www.example.com:65536'', 23)"
      by (simp add: parse_defs)
    have 3: "parseUserInfo (Impl_new\<lparr>scheme := ''http'', userInfo := [], host := [], port := 0,
                                     hasPort := False\<rparr>) ''www.example.com:65536''
               = Inr (Some (Impl_new\<lparr>scheme := ''http''\<rparr>, 0))"
      by (simp add: parse_defs Impl_new_def)
    have 4: "str_find ''www.example.com:65536'' '':'' 0 = Some 15"
      by (simp add: parse_defs)
    have 5: "substr_from ''www.example.com:65536'' (15 + 1) = ''65536''"
      by (simp add: substr_from_def)
    have 6: "\<exists>j\<le>length ''65536''. 65535 < decimal_value (take j ''65536'')"
      unfolding exceeds_at_some_point
      by (simp add: decimal_value_def decimal_from_def code_def)
    from C1_port_number [OF 1 2 3 4] 6 show ?thesis
      unfolding 5 by blast
  qed
  have not_digit: "\<exists>r. ParseFromString Impl_new ''http://www.example.com:8080spam/foo/bar''
                         = Inr (False, r)"
  proof -
    have 1: "parseScheme ''http://www.example.com:8080spam/foo/bar'' = Some (''http'', 5)"
      by (simp add: parse_defs)
    have 2: "parseAuthority (substr_from ''http://www.example.com:8080spam/foo/bar'' 5)
               = (''www.example.com:8080spam'', 26)"
      by (simp add: parse_defs)
    have 3: "parseUserInfo (Impl_new\<lparr>scheme := ''http'', userInfo := [], host := [], port := 0,
                                     hasPort := False\<rparr>) ''www.example.com:8080spam''
               = Inr (Some (Impl_new\<lparr>scheme := ''http''\<rparr>, 0))"
      by (simp add: parse_defs Impl_new_def)
    have 4: "str_find ''www.example.com:8080spam'' '':'' 0 = Some 15"
      by (simp add: parse_defs)
    have 5: "substr_from ''www.example.com:8080spam'' (15 + 1) = ''8080spam''"
      by (simp add: substr_from_def)
    have 6: "\<exists>c\<in>set ''8080spam''. \<not> DIGIT c"
      by (simp add: DIGIT_def)
    from C1_port_number [OF 1 2 3 4] 6 show ?thesis
      unfolding 5 by blast
  qed
  from good too_big not_digit show ?thesis
    by blast
qed

subsection \<open>C2: the userinfo\<close>

text \<open>
  Claim C2 says that the text before the \<open>@\<close> is checked against the userinfo grammar, that
  a text outside the grammar fails the parse, and that on success the stored userinfo is
  the text with every \<open>%XX\<close> decoded once, from left to right, so that \<open>"%2525"\<close> gives
  \<open>"%25"\<close>. The loop of lines 266 to 269 searches the percent sign from the start of the
  text in every round, so a decoded percent sign is read again as the start of an escape:
  the userinfo \<open>%2541\<close> is stored as \<open>A\<close> and not as \<open>%41\<close>, and on \<open>%2525\<close> and on \<open>%25\<close>
  the second or third round calls \<open>std::stoi\<close> on an empty text, which throws
  \<open>std::invalid_argument\<close> out of \<open>ParseFromString\<close>.
\<close>

theorem C2_decoded_percent_read_again:
  "userinfo_grammar ''%2541'' \<and> pct_decode ''%2541'' = ''%41''
   \<and> ParseFromString st ''//%2541@www.example.com/'' =
       Inr (True, st\<lparr>scheme := [], userInfo := ''A'', host := ''www.example.com'', port := 0,
                     hasPort := False, fragment := [], query := [], path := [[]]\<rparr>)
   \<and> userinfo_grammar ''%2525'' \<and> pct_decode ''%2525'' = ''%25''
   \<and> ParseFromString st ''//%2525@www.example.com/'' = Inl invalid_argument
   \<and> userinfo_grammar ''%25'' \<and> pct_decode ''%25'' = ''%''
   \<and> ParseFromString st ''//%25@www.example.com/'' = Inl invalid_argument"
proof -
  have grammar: "userinfo_grammar ''%2541''" "userinfo_grammar ''%2525''" "userinfo_grammar ''%25''"
    by (simp_all add: userinfo_regex_grammar [symmetric] is_hex_def is_digit_def
          userinfo_class_def code_def)
  have decoded: "pct_decode ''%2541'' = ''%41''" "pct_decode ''%2525'' = ''%25''"
    "pct_decode ''%25'' = ''%''"
    by (simp_all add: hex_digit_value_def is_digit_def code_def char_of_int_eq_iff)
  have parsed: "ParseFromString st ''//%2541@www.example.com/'' =
       Inr (True, st\<lparr>scheme := [], userInfo := ''A'', host := ''www.example.com'', port := 0,
                     hasPort := False, fragment := [], query := [], path := [[]]\<rparr>)"
    by (simp add: parse_defs stoi_defs)
  have thrown: "ParseFromString st ''//%2525@www.example.com/'' = Inl invalid_argument"
    "ParseFromString st ''//%25@www.example.com/'' = Inl invalid_argument"
    by (simp_all add: parse_defs stoi_defs)
  from grammar decoded parsed thrown show ?thesis
    by simp
qed

text \<open>
  What holds instead, first half. When the authority has an \<open>@\<close> and the text before the
  first one is outside the userinfo grammar, \<open>ParseFromString\<close> returns false; the instance
  then holds the scheme and cleared authority fields.
\<close>

theorem userinfo_outside_grammar:
  assumes "parseScheme s = Some (sch, n)"
    and "parseAuthority (substr_from s n) = (a, m)"
    and "CHR ''@'' \<in> set a"
    and "\<not> userinfo_grammar (before_first CHR ''@'' a)"
  shows "ParseFromString st s =
           Inr (False, st\<lparr>scheme := sch, userInfo := [], host := [], port := 0,
                          hasPort := False\<rparr>)"
proof -
  have "parseUserInfo
          (st\<lparr>scheme := sch, userInfo := [], host := [], port := 0, hasPort := False\<rparr>) a
          = Inr None"
    using assms(3,4)
    by (simp add: parseUserInfo_def str_find_char substr_before_first userinfo_regex_grammar)
  then have "parseAuthorityComponents (st\<lparr>scheme := sch\<rparr>) a =
               Inr (False, st\<lparr>scheme := sch, userInfo := [], host := [], port := 0,
                              hasPort := False\<rparr>)"
    by (simp add: parseAuthorityComponents_def)
  with assms(1,2) show ?thesis
    by (simp add: ParseFromString_def)
qed

theorem userinfo_outside_grammar_witness:
  "ParseFromString Impl_new ''//%X@www.example.com/'' = Inr (False, Impl_new)
   \<and> ParseFromString Impl_new ''//{@www.example.com/'' = Inr (False, Impl_new)"
proof -
  have 1: "parseScheme ''//%X@www.example.com/'' = Some ([], 0)"
    and 2: "parseAuthority (substr_from ''//%X@www.example.com/'' 0)
              = (''%X@www.example.com'', 20)"
    and 3: "CHR ''@'' \<in> set ''%X@www.example.com''"
    by (simp_all add: parse_defs)
  have 4: "\<not> userinfo_grammar (before_first CHR ''@'' ''%X@www.example.com'')"
    by (simp add: userinfo_regex_grammar [symmetric] before_first_def)
  have 5: "parseScheme ''//{@www.example.com/'' = Some ([], 0)"
    and 6: "parseAuthority (substr_from ''//{@www.example.com/'' 0)
              = (''{@www.example.com'', 19)"
    and 7: "CHR ''@'' \<in> set ''{@www.example.com''"
    by (simp_all add: parse_defs)
  have 8: "\<not> userinfo_grammar (before_first CHR ''@'' ''{@www.example.com'')"
    by (simp add: userinfo_regex_grammar [symmetric] before_first_def userinfo_class_def
          is_digit_def is_alpha_def code_def)
  from userinfo_outside_grammar [OF 1 2 3 4, of Impl_new]
       userinfo_outside_grammar [OF 5 6 7 8, of Impl_new]
  show ?thesis
    by (simp add: Impl_new_def)
qed

text \<open>
  What holds instead, second half. When the text before the first \<open>@\<close> is in the grammar
  and its decoding holds no percent sign (no escape is \<open>%25\<close>), \<open>ParseFromString\<close> throws
  nothing and the state it leaves holds the decoding as userinfo.
\<close>

theorem userinfo_decoded_once:
  assumes "parseScheme s = Some (sch, n)"
    and "parseAuthority (substr_from s n) = (a, m)"
    and "CHR ''@'' \<in> set a"
    and "userinfo_grammar (before_first CHR ''@'' a)"
    and "CHR ''%'' \<notin> set (pct_decode (before_first CHR ''@'' a))"
  shows "\<exists>ok r. ParseFromString st s = Inr (ok, r)
                \<and> userInfo r = pct_decode (before_first CHR ''@'' a)"
proof -
  let ?c = "st\<lparr>scheme := sch, userInfo := [], host := [], port := 0, hasPort := False\<rparr>"
  let ?u = "before_first CHR ''@'' a"
  have "pct_loop ([] @ ?u) = Inr ([] @ pct_decode ?u)"
    using assms(4) _ assms(5) by (rule pct_loop_decode) simp
  then have "parseUserInfo ?c a
               = Inr (Some (?c\<lparr>userInfo := pct_decode ?u\<rparr>, length ?u + 1))"
    using assms(3,4)
    by (simp add: parseUserInfo_def str_find_char substr_before_first userinfo_regex_grammar
          before_first_def Let_def)
  then obtain ok st2
    where comp: "parseAuthorityComponents (st\<lparr>scheme := sch\<rparr>) a = Inr (ok, st2)"
      and ui: "userInfo st2 = pct_decode ?u"
    using parsePort_userInfo [of "?c\<lparr>userInfo := pct_decode ?u\<rparr>" a "length ?u + 1"]
    by (cases "parsePort (?c\<lparr>userInfo := pct_decode ?u\<rparr>) a (length ?u + 1)")
       (simp add: parseAuthorityComponents_def)
  from ParseFromString_userInfo [OF assms(1,2) comp] ui show ?thesis
    by auto
qed

theorem userinfo_decoded_once_witness:
  "\<exists>ok r. ParseFromString Impl_new ''http://j%6Fe:p%40ss@h:80/'' = Inr (ok, r)
            \<and> userInfo r = ''joe:p@ss''"
proof -
  have 1: "parseScheme ''http://j%6Fe:p%40ss@h:80/'' = Some (''http'', 5)"
    and 2: "parseAuthority (substr_from ''http://j%6Fe:p%40ss@h:80/'' 5)
              = (''j%6Fe:p%40ss@h:80'', 19)"
    and 3: "CHR ''@'' \<in> set ''j%6Fe:p%40ss@h:80''"
    by (simp_all add: parse_defs)
  have 4: "before_first CHR ''@'' ''j%6Fe:p%40ss@h:80'' = ''j%6Fe:p%40ss''"
    by (simp add: before_first_def)
  have 5: "userinfo_grammar ''j%6Fe:p%40ss''"
    by (simp add: userinfo_regex_grammar [symmetric] userinfo_class_def is_hex_def
          is_digit_def is_alpha_def code_def)
  have 6: "pct_decode ''j%6Fe:p%40ss'' = ''joe:p@ss''"
    by (simp add: hex_digit_value_def is_digit_def code_def char_of_int_eq_iff)
  have 7: "CHR ''%'' \<notin> set (pct_decode ''j%6Fe:p%40ss'')"
    unfolding 6 by simp
  from userinfo_decoded_once [OF 1 2 3 5 [folded 4] 7 [folded 4], of Impl_new] show ?thesis
    unfolding 4 6 .
qed

subsection \<open>C3: the scheme is validated\<close>

text \<open>
  Claim C3. For every input in which a colon is taken as the scheme delimiter (there is a
  colon, and no \<open>/\<close> stands before the first one), the text before that colon is checked
  against \<open>ALPHA (ALPHA / DIGIT / "+" / "-" / ".")*\<close>. When it does not match, the whole
  \<open>ParseFromString\<close> returns false, and leaves the instance as it was; when it matches, it
  is the scheme of every state the parse returns. \<open>"1http://x"\<close> and \<open>"ht tp://x"\<close> are
  rejected.
\<close>

theorem C3_scheme_validated:
  assumes "CHR '':'' \<in> set s" and "CHR ''/'' \<notin> set (before_first CHR '':'' s)"
  shows "(\<not> scheme_grammar (before_first CHR '':'' s) \<longrightarrow> ParseFromString st s = Inr (False, st))
       \<and> (scheme_grammar (before_first CHR '':'' s) \<longrightarrow>
            parseScheme s
              = Some (before_first CHR '':'' s, Suc (length (before_first CHR '':'' s)))
            \<and> (\<forall>ok r. ParseFromString st s = Inr (ok, r)
                   \<longrightarrow> scheme r = before_first CHR '':'' s))
       \<and> ParseFromString st ''1http://x'' = Inr (False, st)
       \<and> ParseFromString st ''ht tp://x'' = Inr (False, st)"
proof -
  have invalid: "ParseFromString st s = Inr (False, st)"
    if "\<not> scheme_grammar (before_first CHR '':'' s)"
  proof -
    from that assms have "parseScheme s = None"
      by (simp add: parseScheme_char scheme_regex_grammar)
    then show ?thesis
      by (simp add: ParseFromString_def)
  qed
  have valid: "parseScheme s
                 = Some (before_first CHR '':'' s, Suc (length (before_first CHR '':'' s)))
               \<and> (\<forall>ok r. ParseFromString st s = Inr (ok, r)
                      \<longrightarrow> scheme r = before_first CHR '':'' s)"
    if "scheme_grammar (before_first CHR '':'' s)"
  proof -
    from that assms have "parseScheme s
        = Some (before_first CHR '':'' s, Suc (length (before_first CHR '':'' s)))"
      by (simp add: parseScheme_char scheme_regex_grammar)
    then show ?thesis
      by (auto dest: ParseFromString_scheme)
  qed
  have examples: "ParseFromString st ''1http://x'' = Inr (False, st)"
    "ParseFromString st ''ht tp://x'' = Inr (False, st)"
    by (simp_all add: parse_defs)
  from invalid valid examples show ?thesis
    by blast
qed

theorem C3_witness:
  "ParseFromString Impl_new ''0://www.example.com/'' = Inr (False, Impl_new)
   \<and> parseScheme ''x+://www.example.com/'' = Some (''x+'', 3)
   \<and> \<not> scheme_grammar ''0''
   \<and> scheme_grammar ''x+''"
proof -
  have 1: "CHR '':'' \<in> set ''0://www.example.com/''"
    and 2: "CHR ''/'' \<notin> set (before_first CHR '':'' ''0://www.example.com/'')"
    and 3: "before_first CHR '':'' ''0://www.example.com/'' = ''0''"
    by (simp_all add: before_first_def)
  have 4: "CHR '':'' \<in> set ''x+://www.example.com/''"
    and 5: "CHR ''/'' \<notin> set (before_first CHR '':'' ''x+://www.example.com/'')"
    and 6: "before_first CHR '':'' ''x+://www.example.com/'' = ''x+''"
    by (simp_all add: before_first_def)
  have 7: "\<not> scheme_grammar ''0''" and 8: "scheme_grammar ''x+''"
    by (simp_all add: scheme_grammar_def ALPHA_def DIGIT_def)
  from C3_scheme_validated [OF 1 2, of Impl_new] C3_scheme_validated [OF 4 5, of Impl_new] 7 8
  show ?thesis
    unfolding 3 6 by simp
qed

subsection \<open>C4: the authority text\<close>

text \<open>
  Claim C4 says that a recognised authority is exactly the text from just after the \<open>//\<close>
  up to the first following \<open>/\<close>, \<open>?\<close> or \<open>#\<close>, wherever the \<open>//\<close> stands, so that the host
  never holds a \<open>/\<close>. The code passes \<open>authorityEnd - 2\<close> as the length to \<open>substr\<close>, which is
  the length of that text only when the \<open>//\<close> is at index 0. On \<open>"x//host/p"\<close> the authority
  span is \<open>host\<close>, and the code returns \<open>host/\<close> and stores it as the host.
\<close>

theorem C4_authority_overrun:
  "after_double_slash ''x//host/p'' = Some ''host/p''
   \<and> authority_span ''host/p'' = ''host''
   \<and> parseAuthority ''x//host/p'' = (''host/'', 7)
   \<and> ParseFromString st ''x//host/p'' =
       Inr (True, st\<lparr>scheme := [], userInfo := [], host := ''host/'', port := 0,
                     hasPort := False, fragment := [], query := [], path := [[], ''p'']\<rparr>)
   \<and> CHR ''/'' \<in> set ''host/''"
  by (simp add: parse_x_host_p authority_span_def) (simp add: parse_defs)

text \<open>
  What holds instead. With the \<open>//\<close> at index 0 the authority is exactly the authority
  span, which holds no \<open>/\<close>, \<open>?\<close> or \<open>#\<close>, and the next index is just behind it.
\<close>

theorem authority_at_start:
  "parseAuthority (''//'' @ r) = (authority_span r, 2 + length (authority_span r))
   \<and> CHR ''/'' \<notin> set (authority_span r)
   \<and> CHR ''?'' \<notin> set (authority_span r)
   \<and> CHR ''#'' \<notin> set (authority_span r)"
proof -
  have "take (length (authority_span r)) r = authority_span r"
    unfolding authority_span_def by (rule takeWhile_eq_take [symmetric])
  with parseAuthority_recognised [of "[]" r]
  have "parseAuthority (''//'' @ r) = (authority_span r, 2 + length (authority_span r))"
    by simp
  moreover have "\<forall>x\<in>set (authority_span r). x \<notin> set ''/?#''"
    unfolding authority_span_def by (auto dest: set_takeWhileD)
  ultimately show ?thesis
    by auto
qed

text \<open>
  With \<open>k\<close> characters, none of them a \<open>/\<close>, before the \<open>//\<close>, the text returned is the
  authority span followed by the next \<open>k\<close> characters of the input (as far as there are
  any), and the next index is the end of the authority span.
\<close>

theorem authority_after_prefix:
  assumes "CHR ''/'' \<notin> set p"
  shows "parseAuthority (p @ ''//'' @ r) =
           (authority_span r @ take (length p) (drop (length (authority_span r)) r),
            length p + 2 + length (authority_span r))"
proof -
  have "take (length (authority_span r) + length p) r
          = take (length (authority_span r)) r
              @ take (length p) (drop (length (authority_span r)) r)"
    by (rule take_add)
  moreover have "take (length (authority_span r)) r = authority_span r"
    unfolding authority_span_def by (rule takeWhile_eq_take [symmetric])
  ultimately show ?thesis
    using parseAuthority_recognised [OF assms, of r] by simp
qed

theorem authority_after_prefix_witness:
  "parseAuthority ''http:x//host/p'' = (''host/p'', 12)
   \<and> parseAuthority ''x//host'' = (''host'', 7)"
proof -
  have 1: "CHR ''/'' \<notin> set ''http:x''" and 2: "CHR ''/'' \<notin> set ''x''"
    by simp_all
  from authority_after_prefix [OF 1, of "''host/p''"] authority_after_prefix [OF 2, of "''host''"]
  show ?thesis
    by (simp add: authority_span_def)
qed

subsection \<open>C5: inputs with no colon before any slash\<close>

text \<open>
  Claim C5, as stated: for all inputs with no colon before any \<open>/\<close>, the parsed scheme is
  empty and the entire input goes through the fragment, query and path stages. The second
  half fails on an input with an authority: \<open>"//example.com/foo"\<close> has no colon, and its
  path is \<open>["", "foo"]\<close> with the host \<open>example.com\<close>, where the path stage on the entire
  input would give \<open>["", "", "example.com", "foo"]\<close>.
\<close>

theorem C5_counterexample:
  "no_colon_before_slash ''//example.com/foo''
   \<and> \<not> whole_input_is_path_query_fragment Impl_new ''//example.com/foo''
   \<and> ParseFromString Impl_new ''//example.com/foo''
       = Inr (True, \<lparr>scheme = [], userInfo = [], host = ''example.com'', hasPort = False,
                      port = 0, path = [[], ''foo''], query = [], fragment = []\<rparr>)
   \<and> parsePath ''//example.com/foo'' = [[], [], ''example.com'', ''foo'']"
proof -
  have 1: "ParseFromString Impl_new ''//example.com/foo''
       = Inr (True, \<lparr>scheme = [], userInfo = [], host = ''example.com'', hasPort = False,
                      port = 0, path = [[], ''foo''], query = [], fragment = []\<rparr>)"
    by (simp add: parse_defs Impl_new_def)
  have 2: "parsePath ''//example.com/foo'' = [[], [], ''example.com'', ''foo'']"
    by (simp add: parsePath_def path_loop_split_on)
  have 3: "no_colon_before_slash ''//example.com/foo''"
    by (simp add: no_colon_before_slash_def before_first_def)
  have 4: "\<not> whole_input_is_path_query_fragment Impl_new ''//example.com/foo''"
    unfolding whole_input_is_path_query_fragment_def 1
    by (simp add: before_first_def 2)
  from 1 2 3 4 show ?thesis
    by simp
qed

text \<open>
  Claim C5, amended: for all inputs with no colon before any \<open>/\<close>, the scheme stage splits
  nothing off (it returns the empty scheme and the index 0), so every state a parse returns
  has an empty scheme and the full input is handed to the authority stage; what is left
  behind the authority goes through the fragment, query and path stages, and this is the
  entire input when no authority is recognised.
\<close>

theorem C5_no_scheme_split_off:
  assumes "no_colon_before_slash s"
  shows "parseScheme s = Some ([], 0)
       \<and> (\<forall>ok r. ParseFromString st s = Inr (ok, r) \<longrightarrow> scheme r = [])
       \<and> (\<forall>a m st2.
             parseAuthority s = (a, m)
             \<and> parseAuthorityComponents (st\<lparr>scheme := []\<rparr>) a = Inr (True, st2)
             \<longrightarrow> ParseFromString st s =
                   Inr (True,
                        st2\<lparr>fragment := after_first CHR ''#'' (substr_from s m),
                            query := after_first CHR ''?''
                                       (before_first CHR ''#'' (substr_from s m)),
                            path := parsePath
                                      (before_first CHR ''?''
                                         (before_first CHR ''#'' (substr_from s m)))\<rparr>))
       \<and> (parseAuthority s = ([], 0) \<longrightarrow> whole_input_is_path_query_fragment st s)"
proof -
  have "CHR '':'' \<notin> set s \<or> CHR ''/'' \<in> set (before_first CHR '':'' s)"
    using assms before_other [of "CHR ''/''" "CHR '':''" s]
    by (auto simp: no_colon_before_slash_def before_first_def)
  then have sch: "parseScheme s = Some ([], 0)"
    by (simp add: parseScheme_char)
  have empty: "scheme r = []" if "ParseFromString st s = Inr (ok, r)" for ok r
    using sch that by (rule ParseFromString_scheme)
  have stages: "ParseFromString st s =
                   Inr (True,
                        st2\<lparr>fragment := after_first CHR ''#'' (substr_from s m),
                            query := after_first CHR ''?''
                                       (before_first CHR ''#'' (substr_from s m)),
                            path := parsePath
                                      (before_first CHR ''?''
                                         (before_first CHR ''#'' (substr_from s m)))\<rparr>)"
    if "parseAuthority s = (a, m)"
      and "parseAuthorityComponents (st\<lparr>scheme := []\<rparr>) a = Inr (True, st2)" for a m st2
  proof -
    have s0: "substr_from s 0 = s"
      by (simp add: substr_from_def)
    from that(1) have "parseAuthority (substr_from s 0) = (a, m)"
      by (simp only: s0)
    from ParseFromString_stages [OF sch this that(2)] show ?thesis
      by (simp only: s0)
  qed
  have whole: "whole_input_is_path_query_fragment st s" if "parseAuthority s = ([], 0)"
  proof -
    have s0: "substr_from s 0 = s"
      by (simp add: substr_from_def)
    from stages [OF that parseAuthorityComponents_empty] show ?thesis
      by (simp add: whole_input_is_path_query_fragment_def s0)
  qed
  from sch empty stages whole show ?thesis
    by blast
qed

theorem C5_witness:
  "parseScheme ''a/b:c?x:y#z'' = Some ([], 0)
   \<and> whole_input_is_path_query_fragment Impl_new ''a/b:c?x:y#z''
   \<and> ParseFromString Impl_new ''a/b:c?x:y#z''
       = Inr (True, \<lparr>scheme = [], userInfo = [], host = [], hasPort = False, port = 0,
                      path = [''a'', ''b:c''], query = ''x:y'', fragment = ''z''\<rparr>)"
proof -
  have 1: "no_colon_before_slash ''a/b:c?x:y#z''"
    by (simp add: no_colon_before_slash_def before_first_def)
  have 2: "parseAuthority ''a/b:c?x:y#z'' = ([], 0)"
    by (simp add: parse_defs)
  have 3: "ParseFromString Impl_new ''a/b:c?x:y#z''
       = Inr (True, \<lparr>scheme = [], userInfo = [], host = [], hasPort = False, port = 0,
                      path = [''a'', ''b:c''], query = ''x:y'', fragment = ''z''\<rparr>)"
    by (simp add: parse_defs Impl_new_def)
  from C5_no_scheme_split_off [OF 1, of Impl_new] 2 3 show ?thesis
    by simp
qed

subsection \<open>C6: the fragment is split off before the query\<close>

text \<open>
  Claim C6. On the remainder behind the authority, the fragment split runs before the query
  split: the fragment is everything after the first \<open>#\<close> (empty if there is none), the
  remainder is cut to everything before that \<open>#\<close>, and only then the query is everything
  after the first \<open>?\<close> of the cut remainder (empty if there is none); the path stage gets
  what is before that \<open>?\<close>. So \<open>"p?q#f"\<close> gives the query \<open>q\<close> and the fragment \<open>f\<close>, and
  \<open>"p#f?q"\<close> gives the fragment \<open>f?q\<close> and an empty query. The hypotheses say that the
  scheme and authority stages accepted the input, and name the two indices they returned.
\<close>

theorem C6_fragment_before_query:
  assumes "parseScheme s = Some (sch, n)"
    and "parseAuthority (substr_from s n) = (a, m)"
    and "parseAuthorityComponents (st\<lparr>scheme := sch\<rparr>) a = Inr (True, st2)"
  shows "(\<exists>r. ParseFromString st s = Inr (True, r)
            \<and> fragment r = after_first CHR ''#'' (substr_from (substr_from s n) m)
            \<and> query r = after_first CHR ''?''
                           (before_first CHR ''#'' (substr_from (substr_from s n) m))
            \<and> path r = parsePath
                          (before_first CHR ''?''
                             (before_first CHR ''#'' (substr_from (substr_from s n) m))))
       \<and> (\<exists>r. ParseFromString st ''p?q#f'' = Inr (True, r)
              \<and> query r = ''q'' \<and> fragment r = ''f'')
       \<and> (\<exists>r. ParseFromString st ''p#f?q'' = Inr (True, r)
              \<and> query r = [] \<and> fragment r = ''f?q'')"
proof -
  have "ParseFromString st ''p?q#f'' =
          Inr (True, st\<lparr>scheme := [], userInfo := [], host := [], port := 0, hasPort := False,
                        fragment := ''f'', query := ''q'', path := [''p'']\<rparr>)"
    by (simp add: parse_defs)
  moreover have "ParseFromString st ''p#f?q'' =
          Inr (True, st\<lparr>scheme := [], userInfo := [], host := [], port := 0, hasPort := False,
                        fragment := ''f?q'', query := [], path := [''p'']\<rparr>)"
    by (simp add: parse_defs)
  ultimately show ?thesis
    by (simp add: ParseFromString_stages [OF assms])
qed

theorem C6_witness:
  "\<exists>r. ParseFromString Impl_new ''http://h/p?a?b#c#d?e'' = Inr (True, r)
        \<and> fragment r = ''c#d?e'' \<and> query r = ''a?b'' \<and> path r = [[], ''p'']"
proof -
  have 1: "parseScheme ''http://h/p?a?b#c#d?e'' = Some (''http'', 5)"
    by (simp add: parse_defs)
  have 2: "parseAuthority (substr_from ''http://h/p?a?b#c#d?e'' 5) = (''h'', 3)"
    by (simp add: parse_defs)
  have 3: "parseAuthorityComponents (Impl_new\<lparr>scheme := ''http''\<rparr>) ''h''
             = Inr (True, Impl_new\<lparr>scheme := ''http'', host := ''h''\<rparr>)"
    by (simp add: parse_defs Impl_new_def)
  show ?thesis
    using C6_fragment_before_query [OF 1 2 3]
    by (simp add: substr_from_def after_first_def before_first_def parsePath_def
          path_loop_split_on)
qed

subsection \<open>C7: the path segments\<close>

text \<open>
  Claim C7. The path stage maps the empty remainder to the empty sequence, \<open>"/"\<close> to the
  sequence of one empty segment, \<open>"/foo"\<close> to \<open>["", "foo"]\<close> and \<open>"foo/"\<close> to
  \<open>["foo", ""]\<close>, in the stage as in a whole parse from any prior state. A non-empty
  remainder other than \<open>"/"\<close> is split on every \<open>/\<close>: the segments hold no \<open>/\<close>, joined
  with \<open>/\<close> they give the remainder back (so empty segments are kept and there is one
  segment more than there are slashes), and the last segment is the text after the last
  \<open>/\<close>.
\<close>

theorem C7_path_tokenization:
  "parsePath [] = []
   \<and> parsePath ''/'' = [[]]
   \<and> parsePath ''/foo'' = [[], ''foo'']
   \<and> parsePath ''foo/'' = [''foo'', []]
   \<and> (\<exists>r. ParseFromString st [] = Inr (True, r) \<and> path r = [])
   \<and> (\<exists>r. ParseFromString st ''/'' = Inr (True, r) \<and> path r = [[]])
   \<and> (\<exists>r. ParseFromString st ''/foo'' = Inr (True, r) \<and> path r = [[], ''foo''])
   \<and> (\<exists>r. ParseFromString st ''foo/'' = Inr (True, r) \<and> path r = [''foo'', []])
   \<and> (rest \<noteq> [] \<and> rest \<noteq> ''/'' \<longrightarrow>
         parsePath rest = split_on CHR ''/'' rest
         \<and> join_with CHR ''/'' (parsePath rest) = rest
         \<and> list_all (\<lambda>seg. CHR ''/'' \<notin> set seg) (parsePath rest)
         \<and> length (parsePath rest) = Suc (count_list rest CHR ''/'')
         \<and> last (parsePath rest) = after_last CHR ''/'' rest)"
proof -
  have corner: "parsePath [] = []" "parsePath ''/'' = [[]]"
    "parsePath ''/foo'' = [[], ''foo'']" "parsePath ''foo/'' = [''foo'', []]"
    by (simp_all add: parsePath_def path_loop_split_on)
  have parsed:
    "\<exists>r. ParseFromString st [] = Inr (True, r) \<and> path r = []"
    "\<exists>r. ParseFromString st ''/'' = Inr (True, r) \<and> path r = [[]]"
    "\<exists>r. ParseFromString st ''/foo'' = Inr (True, r) \<and> path r = [[], ''foo'']"
    "\<exists>r. ParseFromString st ''foo/'' = Inr (True, r) \<and> path r = [''foo'', []]"
    by (simp_all add: parse_empty parse_slash parse_slash_foo parse_foo_slash)
  have general: "parsePath rest = split_on CHR ''/'' rest
         \<and> join_with CHR ''/'' (parsePath rest) = rest
         \<and> list_all (\<lambda>seg. CHR ''/'' \<notin> set seg) (parsePath rest)
         \<and> length (parsePath rest) = Suc (count_list rest CHR ''/'')
         \<and> last (parsePath rest) = after_last CHR ''/'' rest"
    if "rest \<noteq> []" "rest \<noteq> ''/''"
  proof -
    from that have "parsePath rest = split_on CHR ''/'' rest"
      by (simp add: parsePath_def path_loop_split_on)
    then show ?thesis
      by (simp only: join_split_on split_on_segments length_split_on last_split_on)
  qed
  from corner parsed general show ?thesis
    by blast
qed

theorem C7_witness:
  "parsePath ''a//b/'' = [''a'', [], ''b'', []]
   \<and> join_with CHR ''/'' [''a'', [], ''b'', []] = ''a//b/''
   \<and> after_last CHR ''/'' ''a//b/'' = []
   \<and> count_list ''a//b/'' CHR ''/'' = 3"
  using C7_path_tokenization [of Impl_new "''a//b/''"]
  by (simp add: after_last_def)

subsection \<open>C8: a second parse keeps nothing of the first\<close>

text \<open>
  Claim C8. When a parse succeeds on an instance that an earlier parse left in any state
  \<open>st\<close>, and the parsed text has no authority, the result has an empty userinfo, an empty
  host and no port; and the result is the same from every prior state \<open>st'\<close>, so none of
  its fields is carried over. In particular \<open>"http://joe@www.example.com:8080/foo/bar"\<close>
  followed by \<open>"/foo/bar"\<close> on the same instance ends in the state a fresh instance reaches
  on \<open>"/foo/bar"\<close>.
\<close>

theorem C8_reparse_without_authority:
  assumes "ParseFromString st s = Inr (True, r)"
    and "parseScheme s = Some (sch, n)"
    and "fst (parseAuthority (substr_from s n)) = []"
  shows "userInfo r = [] \<and> host r = [] \<and> hasPort r = False \<and> port r = 0
         \<and> ParseFromString st' s = Inr (True, r)
         \<and> (\<exists>r1 r2.
               ParseFromString st0 ''http://joe@www.example.com:8080/foo/bar'' = Inr (True, r1)
               \<and> userInfo r1 = ''joe'' \<and> host r1 = ''www.example.com''
               \<and> hasPort r1 = True \<and> port r1 = 8080
               \<and> ParseFromString r1 ''/foo/bar'' = Inr (True, r2)
               \<and> userInfo r2 = [] \<and> host r2 = [] \<and> hasPort r2 = False
               \<and> r2 = \<lparr>scheme = [], userInfo = [], host = [], hasPort = False, port = 0,
                         path = [[], ''foo'', ''bar''], query = [], fragment = []\<rparr>)"
proof -
  obtain m where auth: "parseAuthority (substr_from s n) = ([], m)"
    using assms(3) by (cases "parseAuthority (substr_from s n)") simp
  have "ParseFromString st s =
          Inr (True, st\<lparr>scheme := sch, userInfo := [], host := [], port := 0, hasPort := False,
                fragment := after_first CHR ''#'' (substr_from (substr_from s n) m),
                query := after_first CHR ''?''
                           (before_first CHR ''#'' (substr_from (substr_from s n) m)),
                path := parsePath
                          (before_first CHR ''?''
                             (before_first CHR ''#'' (substr_from (substr_from s n) m)))\<rparr>)"
    using ParseFromString_stages [OF assms(2) auth parseAuthorityComponents_empty] by simp
  with assms(1) have cleared: "userInfo r = [] \<and> host r = [] \<and> hasPort r = False \<and> port r = 0"
    by auto
  have indep: "ParseFromString st' s = Inr (True, r)"
    using assms(1) by (rule ParseFromString_independent)
  have example: "\<exists>r1 r2.
               ParseFromString st0 ''http://joe@www.example.com:8080/foo/bar'' = Inr (True, r1)
               \<and> userInfo r1 = ''joe'' \<and> host r1 = ''www.example.com''
               \<and> hasPort r1 = True \<and> port r1 = 8080
               \<and> ParseFromString r1 ''/foo/bar'' = Inr (True, r2)
               \<and> userInfo r2 = [] \<and> host r2 = [] \<and> hasPort r2 = False
               \<and> r2 = \<lparr>scheme = [], userInfo = [], host = [], hasPort = False, port = 0,
                         path = [[], ''foo'', ''bar''], query = [], fragment = []\<rparr>"
    by (cases st0) (simp add: parse_joe parse_foo_bar)
  from cleared indep example show ?thesis
    by blast
qed

theorem C8_witness:
  "ParseFromString
     \<lparr>scheme = ''http'', userInfo = ''joe'', host = ''www.example.com'', hasPort = True,
      port = 8080, path = [[], ''foo'', ''bar''], query = [], fragment = []\<rparr>
     ''/foo/bar''
   = Inr (True, \<lparr>scheme = [], userInfo = [], host = [], hasPort = False, port = 0,
                  path = [[], ''foo'', ''bar''], query = [], fragment = []\<rparr>)
   \<and> ParseFromString Impl_new ''/foo/bar''
   = Inr (True, \<lparr>scheme = [], userInfo = [], host = [], hasPort = False, port = 0,
                  path = [[], ''foo'', ''bar''], query = [], fragment = []\<rparr>)"
proof -
  let ?st = "\<lparr>scheme = ''http'', userInfo = ''joe'', host = ''www.example.com'', hasPort = True,
      port = 8080, path = [[], ''foo'', ''bar''], query = [], fragment = []\<rparr>"
  let ?r = "\<lparr>scheme = [], userInfo = [], host = [], hasPort = False, port = 0,
                  path = [[], ''foo'', ''bar''], query = [], fragment = []\<rparr>"
  have 1: "ParseFromString ?st ''/foo/bar'' = Inr (True, ?r)"
    by (simp add: parse_foo_bar)
  have 2: "parseScheme ''/foo/bar'' = Some ([], 0)"
    by (simp add: parse_defs)
  have 3: "fst (parseAuthority (substr_from ''/foo/bar'' 0)) = []"
    by (simp add: parse_defs)
  show ?thesis
    using C8_reparse_without_authority [OF 1 2 3, of Impl_new Impl_new] 1
    by simp
qed

subsection \<open>C9: \<open>ContainsRelativePath\<close>\<close>

text \<open>
  Claim C9. For every state of the instance, \<open>ContainsRelativePath\<close> returns true if and
  only if the sequence of path segments is empty or its first segment is not empty, and
  false exactly when the first segment is the empty string. After a parse it is false for
  \<open>"/"\<close> and \<open>"/foo"\<close> and true for \<open>"foo/"\<close>, \<open>""\<close>, \<open>"//example.com"\<close> and
  \<open>"http://example.com"\<close>, whatever the instance held before.
\<close>

theorem C9_ContainsRelativePath:
  "(ContainsRelativePath st \<longleftrightarrow> path st = [] \<or> (\<exists>seg segs. path st = seg # segs \<and> seg \<noteq> []))
   \<and> (\<not> ContainsRelativePath st \<longleftrightarrow> (\<exists>segs. path st = [] # segs))
   \<and> (\<exists>r. ParseFromString st0 ''/'' = Inr (True, r) \<and> \<not> ContainsRelativePath r)
   \<and> (\<exists>r. ParseFromString st0 ''/foo'' = Inr (True, r) \<and> \<not> ContainsRelativePath r)
   \<and> (\<exists>r. ParseFromString st0 ''foo/'' = Inr (True, r) \<and> ContainsRelativePath r)
   \<and> (\<exists>r. ParseFromString st0 [] = Inr (True, r) \<and> ContainsRelativePath r)
   \<and> (\<exists>r. ParseFromString st0 ''//example.com'' = Inr (True, r) \<and> ContainsRelativePath r)
   \<and> (\<exists>r. ParseFromString st0 ''http://example.com'' = Inr (True, r) \<and> ContainsRelativePath r)"
proof -
  have general: "ContainsRelativePath st \<longleftrightarrow> path st = [] \<or> (\<exists>seg segs. path st = seg # segs \<and> seg \<noteq> [])"
    by (cases "path st") (simp_all add: ContainsRelativePath_def)
  have absolute: "\<not> ContainsRelativePath st \<longleftrightarrow> (\<exists>segs. path st = [] # segs)"
    by (cases "path st") (simp_all add: ContainsRelativePath_def)
  have examples:
    "\<exists>r. ParseFromString st0 ''/'' = Inr (True, r) \<and> \<not> ContainsRelativePath r"
    "\<exists>r. ParseFromString st0 ''/foo'' = Inr (True, r) \<and> \<not> ContainsRelativePath r"
    "\<exists>r. ParseFromString st0 ''foo/'' = Inr (True, r) \<and> ContainsRelativePath r"
    "\<exists>r. ParseFromString st0 [] = Inr (True, r) \<and> ContainsRelativePath r"
    "\<exists>r. ParseFromString st0 ''//example.com'' = Inr (True, r) \<and> ContainsRelativePath r"
    "\<exists>r. ParseFromString st0 ''http://example.com'' = Inr (True, r) \<and> ContainsRelativePath r"
    by (simp_all add: parse_empty parse_slash parse_slash_foo parse_foo_slash
          parse_network_path parse_http_example ContainsRelativePath_def)
  from general absolute examples show ?thesis
    by blast
qed

theorem C9_witness:
  "ContainsRelativePath (Impl_new\<lparr>path := [''foo'', []]\<rparr>)
   \<and> \<not> ContainsRelativePath (Impl_new\<lparr>path := [[], ''foo'']\<rparr>)
   \<and> ContainsRelativePath Impl_new"
  using C9_ContainsRelativePath [of "Impl_new\<lparr>path := [''foo'', []]\<rparr>" Impl_new]
        C9_ContainsRelativePath [of "Impl_new\<lparr>path := [[], ''foo'']\<rparr>" Impl_new]
        C9_ContainsRelativePath [of Impl_new Impl_new]
  by (simp add: Impl_new_def)

subsection \<open>C10: an empty port text\<close>

text \<open>
  Claim C10. For every authority whose port delimiter is its last character, so that the
  port text is empty, \<open>ParseFromString\<close> returns true with \<open>hasPort\<close> set and the port 0
  (the hypotheses say, as for C1, that the scheme and the userinfo were accepted and where
  the port delimiter was found). The result cannot be told from that of an explicit
  \<open>:0\<close>: the authority stage maps the authority and the authority followed by \<open>0\<close> to the
  same result from every state, and \<open>"http://host:/x"\<close> and \<open>"http://host:"\<close> parse to the
  states that \<open>"http://host:0/x"\<close> and \<open>"http://host:0"\<close> parse to.
\<close>

theorem C10_empty_port_text:
  assumes "parseScheme s = Some (sch, n)"
    and "parseAuthority (substr_from s n) = (a, m)"
    and "parseUserInfo (st\<lparr>scheme := sch, userInfo := [], host := [], port := 0,
                            hasPort := False\<rparr>) a = Inr (Some (st1, k))"
    and "str_find a '':'' k = Some p"
    and "Suc p = length a"
  shows "(\<exists>r. ParseFromString st s = Inr (True, r) \<and> hasPort r = True \<and> port r = 0)
       \<and> parseAuthorityComponents st' (a @ ''0'') = parseAuthorityComponents st' a
       \<and> (\<exists>r. ParseFromString st ''http://host:/x'' = Inr (True, r)
              \<and> hasPort r = True \<and> port r = 0
              \<and> ParseFromString st ''http://host:0/x'' = Inr (True, r))
       \<and> (\<exists>r. ParseFromString st ''http://host:'' = Inr (True, r)
              \<and> hasPort r = True \<and> port r = 0
              \<and> ParseFromString st ''http://host:0'' = Inr (True, r))"
proof -
  have "substr_from a (p + 1) = []"
    using assms(5) by (simp add: substr_from_def)
  then have "port_loop 0 (substr_from a (p + 1)) = Some 0"
    by simp
  from ParseFromString_port(2) [OF assms(1-4) this]
  have general: "\<exists>r. ParseFromString st s = Inr (True, r) \<and> hasPort r = True \<and> port r = 0"
    by auto
  have same: "parseAuthorityComponents st' (a @ ''0'') = parseAuthorityComponents st' a"
  proof -
    let ?c = "st'\<lparr>userInfo := [], host := [], port := 0, hasPort := False\<rparr>"
    from assms(3) obtain st1' where ui: "parseUserInfo ?c a = Inr (Some (st1', k))"
      by (auto simp: parseUserInfo_def Let_def split: option.splits sum.splits if_splits)
    have "parseUserInfo ?c (a @ ''0'') = parseUserInfo ?c a"
      by (rule parseUserInfo_append) simp
    with ui parsePort_trailing_zero [OF assms(4,5), of st1'] show ?thesis
      by (simp add: parseAuthorityComponents_def)
  qed
  have ex1: "\<exists>r. ParseFromString st ''http://host:/x'' = Inr (True, r)
              \<and> hasPort r = True \<and> port r = 0
              \<and> ParseFromString st ''http://host:0/x'' = Inr (True, r)"
    by (simp add: parse_defs)
  have ex2: "\<exists>r. ParseFromString st ''http://host:'' = Inr (True, r)
              \<and> hasPort r = True \<and> port r = 0
              \<and> ParseFromString st ''http://host:0'' = Inr (True, r)"
    by (simp add: parse_defs)
  from general same ex1 ex2 show ?thesis
    by blast
qed

theorem C10_witness:
  "(\<exists>r. ParseFromString Impl_new ''http://joe@host:/x'' = Inr (True, r)
        \<and> hasPort r = True \<and> port r = 0)
   \<and> parseAuthorityComponents Impl_new ''joe@host:0''
       = parseAuthorityComponents Impl_new ''joe@host:''"
proof -
  have 1: "parseScheme ''http://joe@host:/x'' = Some (''http'', 5)"
    by (simp add: parse_defs)
  have 2: "parseAuthority (substr_from ''http://joe@host:/x'' 5) = (''joe@host:'', 11)"
    by (simp add: parse_defs)
  have 3: "parseUserInfo (Impl_new\<lparr>scheme := ''http'', userInfo := [], host := [], port := 0,
                                   hasPort := False\<rparr>) ''joe@host:''
             = Inr (Some (Impl_new\<lparr>scheme := ''http'', userInfo := ''joe''\<rparr>, 4))"
    by (simp add: parse_defs Impl_new_def)
  have 4: "str_find ''joe@host:'' '':'' 4 = Some 8"
    by (simp add: parse_defs)
  have 5: "Suc 8 = length ''joe@host:''"
    by simp
  from C10_empty_port_text [OF 1 2 3 4 5, of Impl_new] show ?thesis
    by simp
qed

end
